theory Spec2Isabelle
  imports Main "HOL-Library.AList"
begin

section \<open>Data model\<close>

text \<open>
  The virtual file system of \<^verbatim>\<open>class VirtualFileSystem\<close> keeps one JavaScript object
  \<^verbatim>\<open>this.fs\<close> from path strings to entries and one string \<^verbatim>\<open>this.currentDir\<close>.
  An entry is \<^verbatim>\<open>{type: 'dir', children: [...]}\<close> or
  \<^verbatim>\<open>{type: 'file', content: ..., created: ...}\<close>.

  A JavaScript object lists its string keys in insertion order, an assignment to a present
  key keeps the key's place and an assignment to a new key appends it: this is an
  association list with \<open>AList.update\<close>, and \<^verbatim>\<open>delete\<close> is \<open>AList.delete\<close>.
  Strings are modelled as lists of 8-bit characters; the helper functions below follow
  JavaScript on ASCII text.  Keys inherited from \<^verbatim>\<open>Object.prototype\<close> are not
  modelled, nor is the place JavaScript gives to keys that are array indices: a resolved
  path starts with a slash whenever the working directory does, and no such key is one of
  either kind.
\<close>

datatype entry =
    Dir (children: "string list")
  | File (content: string) (created: int)

type_synonym tree = "(string \<times> entry) list"

record vfs =
  currentDir :: string
  fs :: tree

text \<open>
  What a call does: it returns a success object (with its payload), it returns
  \<^verbatim>\<open>{error: msg}\<close>, or it throws a \<^verbatim>\<open>TypeError\<close> (a property read from
  \<^verbatim>\<open>undefined\<close>).  The state after the call is returned beside the outcome in
  every case: what was assigned before a throw stays assigned.
\<close>

datatype 'a outcome = Success 'a | Failure string | TypeError

section \<open>String primitives of the host language\<close>

definition startsWith :: "string \<Rightarrow> string \<Rightarrow> bool" where
  "startsWith s pre = (take (length pre) s = pre)"

definition endsWith :: "string \<Rightarrow> string \<Rightarrow> bool" where
  "endsWith s suf = (length suf \<le> length s \<and> drop (length s - length suf) s = suf)"

text \<open>\<^verbatim>\<open>s.lastIndexOf(c)\<close> for a one-character \<open>c\<close>: the last index, or \<open>-1\<close>.\<close>

definition lastIndexOf :: "string \<Rightarrow> char \<Rightarrow> int" where
  "lastIndexOf s c =
     (if c \<in> set s then int (length s) - 1 - int (length (takeWhile (\<lambda>x. x \<noteq> c) (rev s)))
      else - 1)"

text \<open>\<^verbatim>\<open>s.substring(a, b)\<close>: both indices are clamped to \<open>0..length\<close> and swapped when
  \<open>a > b\<close>; \<^verbatim>\<open>s.substring(a)\<close> runs to the end.\<close>

definition substring :: "string \<Rightarrow> int \<Rightarrow> int \<Rightarrow> string" where
  "substring s a b =
     (let n = int (length s);
          a' = max 0 (min a n);
          b' = max 0 (min b n);
          lo = min a' b';
          hi = max a' b'
      in take (nat (hi - lo)) (drop (nat lo) s))"

definition substring_from :: "string \<Rightarrow> int \<Rightarrow> string" where
  "substring_from s a = drop (nat (max 0 a)) s"

text \<open>\<^verbatim>\<open>s.split(c)\<close> for a one-character separator: always at least one piece.\<close>

fun split_on :: "char \<Rightarrow> string \<Rightarrow> string list" where
  "split_on c [] = [[]]"
| "split_on c (x # xs) =
     (if x = c then [] # split_on c xs
      else (case split_on c xs of [] \<Rightarrow> [[x]] | w # ws \<Rightarrow> (x # w) # ws))"

fun js_join :: "string \<Rightarrow> string list \<Rightarrow> string" where
  "js_join sep [] = []"
| "js_join sep [x] = x"
| "js_join sep (x # y # ys) = x @ sep @ js_join sep (y # ys)"

fun js_includes :: "string \<Rightarrow> string \<Rightarrow> bool" where
  "js_includes [] sub = (sub = [])"
| "js_includes (x # xs) sub = (startsWith (x # xs) sub \<or> js_includes xs sub)"

definition is_space :: "char \<Rightarrow> bool" where
  "is_space c = (c \<in> set [CHR 0x09, CHR 0x0A, CHR 0x0B, CHR 0x0C, CHR 0x0D, CHR '' ''])"

definition trim :: "string \<Rightarrow> string" where
  "trim s = rev (dropWhile is_space (rev (dropWhile is_space s)))"

text \<open>\<^verbatim>\<open>s.split(/\s+/)\<close>: pieces between maximal runs of white space.\<close>

function split_ws :: "string \<Rightarrow> string list" where
  "split_ws [] = [[]]"
| "split_ws (x # xs) =
     (if is_space x then [] # split_ws (dropWhile is_space xs)
      else (case split_ws xs of [] \<Rightarrow> [[x]] | w # ws \<Rightarrow> (x # w) # ws))"
  by pat_completeness auto
termination
  by (relation "measure length") (auto simp: less_Suc_eq_le length_dropWhile_le)

definition lower_char :: "char \<Rightarrow> char" where
  "lower_char c =
     (if of_char c \<ge> (65::nat) \<and> of_char c \<le> (90::nat) then char_of (of_char c + (32::nat)) else c)"

definition toLowerCase :: "string \<Rightarrow> string" where
  "toLowerCase s = map lower_char s"

text \<open>\<^verbatim>\<open>s.replace(/^["']|["']$/g, '')\<close>: one quote character is removed at the start if
  there is one, and one at the end of what remains.\<close>

definition is_quote :: "char \<Rightarrow> bool" where
  "is_quote c = (c = CHR 0x22 \<or> c = CHR 0x27)"

definition strip_quotes :: "string \<Rightarrow> string" where
  "strip_quotes s =
     (let s1 = (case s of [] \<Rightarrow> [] | c # cs \<Rightarrow> if is_quote c then cs else s)
      in if s1 \<noteq> [] \<and> is_quote (last s1) then butlast s1 else s1)"

section \<open>The virtual file system\<close>

subsection \<open>Path resolution\<close>

definition resolvePath :: "vfs \<Rightarrow> string \<Rightarrow> string" where
  "resolvePath st path =
     (if startsWith path ''/'' then path
      else if path = ''~'' then ''/home/user''
      else if startsWith path ''~/'' then ''/home/user'' @ drop 1 path
      else if path = ''.'' then currentDir st
      else if path = ''..'' then
        (let parts = filter (\<lambda>p. p \<noteq> []) (split_on CHR ''/'' (currentDir st));
             parts' = butlast parts;
             r = ''/'' @ js_join ''/'' parts'
         in if r = [] then ''/'' else r)
      else currentDir st @ (if endsWith (currentDir st) ''/'' then [] else ''/'') @ path)"

text \<open>The two expressions every mutating operation computes from a resolved path:
  \<^verbatim>\<open>path.substring(0, path.lastIndexOf('/')) || '/'\<close> and
  \<^verbatim>\<open>path.substring(path.lastIndexOf('/') + 1)\<close>.\<close>

definition parentOf :: "string \<Rightarrow> string" where
  "parentOf path =
     (let q = substring path 0 (lastIndexOf path CHR ''/'') in if q = [] then ''/'' else q)"

definition nameOf :: "string \<Rightarrow> string" where
  "nameOf path = substring_from path (lastIndexOf path CHR ''/'' + 1)"

subsection \<open>Lookups\<close>

definition exists :: "vfs \<Rightarrow> string \<Rightarrow> bool" where
  "exists st path = (map_of (fs st) path \<noteq> None)"

definition isDir :: "vfs \<Rightarrow> string \<Rightarrow> bool" where
  "isDir st path =
     (exists st path \<and> (case map_of (fs st) path of Some (Dir cs) \<Rightarrow> True | _ \<Rightarrow> False))"

definition isFile :: "vfs \<Rightarrow> string \<Rightarrow> bool" where
  "isFile st path =
     (exists st path \<and> (case map_of (fs st) path of Some (File c t) \<Rightarrow> True | _ \<Rightarrow> False))"

subsection \<open>Creating entries\<close>

text \<open>\<^verbatim>\<open>this.fs[parent].children.push(name)\<close>; \<open>None\<close> when the read of
  \<^verbatim>\<open>children\<close> or the call of \<^verbatim>\<open>push\<close> throws.\<close>

definition push_child :: "vfs \<Rightarrow> string \<Rightarrow> string \<Rightarrow> vfs option" where
  "push_child st parent name =
     (case map_of (fs st) parent of
        Some (Dir cs) \<Rightarrow> Some (st\<lparr>fs := AList.update parent (Dir (cs @ [name])) (fs st)\<rparr>)
      | _ \<Rightarrow> None)"

definition mkdir :: "vfs \<Rightarrow> string \<Rightarrow> unit outcome \<times> vfs" where
  "mkdir st path0 =
     (let path = resolvePath st path0 in
      if exists st path then (Failure ''mkdir: cannot create directory: File exists'', st)
      else
        let parent = parentOf path in
        if \<not> isDir st parent
        then (Failure ''mkdir: cannot create directory: No such file or directory'', st)
        else
          let name = nameOf path;
              st1 = st\<lparr>fs := AList.update path (Dir []) (fs st)\<rparr>
          in (case push_child st1 parent name of
                None \<Rightarrow> (TypeError, st1)
              | Some st2 \<Rightarrow> (Success (), st2)))"

text \<open>\<open>now\<close> is the value of \<^verbatim>\<open>Date.now()\<close> at the call.\<close>

definition touch :: "int \<Rightarrow> vfs \<Rightarrow> string \<Rightarrow> unit outcome \<times> vfs" where
  "touch now st path0 =
     (let path = resolvePath st path0 in
      if exists st path then (Success (), st)
      else
        let parent = parentOf path in
        if \<not> isDir st parent
        then (Failure ''touch: cannot touch: No such file or directory'', st)
        else
          let name = nameOf path;
              st1 = st\<lparr>fs := AList.update path (File [] now) (fs st)\<rparr>
          in (case push_child st1 parent name of
                None \<Rightarrow> (TypeError, st1)
              | Some st2 \<Rightarrow> (Success (), st2)))"

subsection \<open>Reading and writing\<close>

definition set_content :: "vfs \<Rightarrow> string \<Rightarrow> string \<Rightarrow> bool \<Rightarrow> vfs" where
  "set_content st path text appendFlag =
     (case map_of (fs st) path of
        Some (File old t) \<Rightarrow>
          st\<lparr>fs := AList.update path (File (if appendFlag then old @ text else text) t) (fs st)\<rparr>
      | _ \<Rightarrow> st)"

definition writeFile :: "int \<Rightarrow> vfs \<Rightarrow> string \<Rightarrow> string \<Rightarrow> bool \<Rightarrow> unit outcome \<times> vfs" where
  "writeFile now st path0 text appendFlag =
     (let path = resolvePath st path0;
          (r, st1) = (if \<not> exists st path then touch now st path else (Success (), st))
      in case r of
           Success u \<Rightarrow>
             if \<not> isFile st1 path then (Failure ''cannot write: Is a directory'', st1)
             else (Success (), set_content st1 path text appendFlag)
         | _ \<Rightarrow> (r, st1))"

definition readFile :: "vfs \<Rightarrow> string \<Rightarrow> string outcome" where
  "readFile st path0 =
     (let path = resolvePath st path0 in
      if \<not> exists st path then Failure ''cat: No such file or directory''
      else if \<not> isFile st path then Failure ''cat: Is a directory''
      else (case map_of (fs st) path of Some (File c t) \<Rightarrow> Success c | _ \<Rightarrow> Success []))"

definition ls :: "vfs \<Rightarrow> string \<Rightarrow> bool \<Rightarrow> string list outcome" where
  "ls st path0 showHidden =
     (let path = resolvePath st path0 in
      if \<not> exists st path then Failure ''ls: cannot access: No such file or directory''
      else if \<not> isDir st path then Success [nameOf path]
      else (case map_of (fs st) path of
              Some (Dir cs) \<Rightarrow>
                Success (if \<not> showHidden then filter (\<lambda>i. \<not> startsWith i ''.'') cs else cs)
            | _ \<Rightarrow> TypeError))"

subsection \<open>Navigation\<close>

definition cd :: "vfs \<Rightarrow> string \<Rightarrow> string outcome \<times> vfs" where
  "cd st path0 =
     (let path = resolvePath st path0 in
      if \<not> exists st path then (Failure ''cd: no such file or directory'', st)
      else if \<not> isDir st path then (Failure ''cd: not a directory'', st)
      else (Success path, st\<lparr>currentDir := path\<rparr>))"

definition pwd :: "vfs \<Rightarrow> string" where
  "pwd st = currentDir st"

subsection \<open>Removal\<close>

definition children_at :: "vfs \<Rightarrow> string \<Rightarrow> string list" where
  "children_at st path = (case map_of (fs st) path of Some (Dir cs) \<Rightarrow> cs | _ \<Rightarrow> [])"

text \<open>The last two statements of \<^verbatim>\<open>rm\<close> before it saves:
  \<^verbatim>\<open>const idx = this.fs[parent].children.indexOf(name); if (idx > -1) ...splice(idx, 1)\<close>.
  The read of \<^verbatim>\<open>children\<close> throws when \<^verbatim>\<open>this.fs[parent]\<close> is undefined, and
  \<^verbatim>\<open>indexOf\<close> throws when the parent is a file (it has no \<^verbatim>\<open>children\<close>).\<close>

definition unlink :: "vfs \<Rightarrow> string \<Rightarrow> string \<Rightarrow> unit outcome \<times> vfs" where
  "unlink st parent name =
     (case map_of (fs st) parent of
        Some (Dir cs) \<Rightarrow>
          (Success (), st\<lparr>fs := AList.update parent (Dir (remove1 name cs)) (fs st)\<rparr>)
      | _ \<Rightarrow> (TypeError, st))"

text \<open>\<^verbatim>\<open>rm\<close> calls itself on every child of a directory, through the public entry point
  (the child's path is resolved again) and on the state the earlier children left.  The
  results of the inner calls are dropped; an exception of an inner call ends the loop and
  the outer call.\<close>

function rm :: "vfs \<Rightarrow> string \<Rightarrow> bool \<Rightarrow> unit outcome \<times> vfs"
  and rm_children :: "vfs \<Rightarrow> string \<Rightarrow> string list \<Rightarrow> unit outcome \<times> vfs" where
  "rm st path0 recursive =
     (let path = resolvePath st path0 in
      if \<not> exists st path then (Failure ''rm: cannot remove: No such file or directory'', st)
      else if isDir st path \<and> \<not> recursive
      then (Failure ''rm: cannot remove: Is a directory (use -r)'', st)
      else
        let parent = parentOf path;
            name = nameOf path;
            (r, st1) = (if isDir st path \<and> recursive
                        then rm_children st path (children_at st path)
                        else (Success (), st))
        in case r of
             Success u \<Rightarrow> unlink (st1\<lparr>fs := AList.delete path (fs st1)\<rparr>) parent name
           | _ \<Rightarrow> (r, st1))"
| "rm_children st path [] = (Success (), st)"
| "rm_children st path (child # rest) =
     (case rm st (path @ ''/'' @ child) True of
        (TypeError, st1) \<Rightarrow> (TypeError, st1)
      | (r, st1) \<Rightarrow> rm_children st1 path rest)"
  by pat_completeness auto

text \<open>The measure of the termination proof: a resolved child path is longer than its
  directory's, and no key of the tree is longer than \<open>key_bound\<close>.\<close>

definition key_bound :: "vfs \<Rightarrow> nat" where
  "key_bound st = Max (insert 0 (length ` dom (map_of (fs st))))"

definition rm_measure ::
  "(vfs \<times> string \<times> bool) + (vfs \<times> string \<times> string list) \<Rightarrow> nat \<times> nat \<times> nat" where
  "rm_measure x =
     (case x of
        Inl (st, path0, r) \<Rightarrow>
          (let path = resolvePath st path0 in
           if exists st path then (Suc (key_bound st) - length path, 1, 0) else (0, 0, 0))
      | Inr (st, path, cs) \<Rightarrow> (Suc (key_bound st) - length path, 0, Suc (length cs)))"

subsection \<open>Copy and move\<close>

definition cp :: "int \<Rightarrow> vfs \<Rightarrow> string \<Rightarrow> string \<Rightarrow> unit outcome \<times> vfs" where
  "cp now st src0 dest0 =
     (let src = resolvePath st src0;
          dest = resolvePath st dest0
      in if \<not> exists st src then (Failure ''cp: cannot stat: No such file or directory'', st)
         else if isDir st src then (Failure ''cp: omitting directory (use -r for recursive)'', st)
         else (case readFile st src of
                 Failure e \<Rightarrow> (Failure e, st)
               | TypeError \<Rightarrow> (TypeError, st)
               | Success c \<Rightarrow> writeFile now st dest c False))"

definition mv :: "int \<Rightarrow> vfs \<Rightarrow> string \<Rightarrow> string \<Rightarrow> unit outcome \<times> vfs" where
  "mv now st src dest =
     (case cp now st src dest of
        (Success u, st1) \<Rightarrow> rm st1 src False
      | (r, st1) \<Rightarrow> (r, st1))"

subsection \<open>Start-up\<close>

definition default_layout :: tree where
  "default_layout =
     [(''/'', Dir [''home'', ''etc'', ''var'', ''tmp'']),
      (''/home'', Dir [''user'']),
      (''/home/user'', Dir [''Desktop'', ''Documents'', ''Downloads'']),
      (''/home/user/Desktop'', Dir []),
      (''/home/user/Documents'', Dir []),
      (''/home/user/Downloads'', Dir []),
      (''/etc'', Dir []),
      (''/var'', Dir []),
      (''/tmp'', Dir [])]"

text \<open>\<^verbatim>\<open>loadFS\<close>: \<open>item\<close> is what \<^verbatim>\<open>localStorage.getItem('vfs')\<close> returns (\<open>None\<close> for
  \<^verbatim>\<open>null\<close>, the missing key), \<open>parse\<close> is \<^verbatim>\<open>JSON.parse\<close> on payloads that denote a
  tree, with \<open>None\<close> where it throws (the \<^verbatim>\<open>catch\<close> returns \<^verbatim>\<open>null\<close>) or yields
  \<^verbatim>\<open>null\<close>.  An empty payload is falsy and is not parsed.\<close>

definition loadFS :: "(string \<Rightarrow> tree option) \<Rightarrow> string option \<Rightarrow> tree option" where
  "loadFS parse item =
     (case item of None \<Rightarrow> None | Some data \<Rightarrow> if data = [] then None else parse data)"

text \<open>The constructor; the snapshot it writes at its end is \<open>saveFS\<close> below, on the
  tree it has just set.\<close>

definition constructor :: "(string \<Rightarrow> tree option) \<Rightarrow> string option \<Rightarrow> vfs" where
  "constructor parse item =
     \<lparr>currentDir = ''/home/user'',
      fs = (case loadFS parse item of None \<Rightarrow> default_layout | Some t \<Rightarrow> t)\<rparr>"

section \<open>The terminal\<close>

text \<open>
  \<^verbatim>\<open>OS.runTermCmd(cmd, el)\<close> writes the text of the response line \<^verbatim>\<open>el\<close>, a fresh
  element whose text is empty.  The file-system commands and \<^verbatim>\<open>echo\<close> are modelled;
  the commands that only print fixed text or work on the page are \<open>Unmodelled\<close>.
  \<open>Threw\<close>: the handler ended by an exception.
\<close>

datatype rendered = Text string | Threw | Unmodelled

definition unmodelled_commands :: "string list" where
  "unmodelled_commands =
     [''help'', ''clear'', ''cls'', ''ls'', ''dir'', ''nano'', ''vim'', ''vi'', ''grep'', ''wc'',
      ''head'', ''tail'', ''whoami'', ''uname'', ''date'', ''uptime'', ''ps'', ''top'', ''df'',
      ''free'', ''ping'', ''curl'', ''wget'', ''history'', ''export'']"

text \<open>\<^verbatim>\<open>el.innerText = result.error || ''\<close>\<close>

definition show_error :: "'a outcome \<times> vfs \<Rightarrow> rendered \<times> vfs" where
  "show_error res =
     (case res of
        (Success x, st) \<Rightarrow> (Text [], st)
      | (Failure e, st) \<Rightarrow> (Text e, st)
      | (TypeError, st) \<Rightarrow> (Threw, st))"

text \<open>\<^verbatim>\<open>!args[0]\<close>: no first argument, or an empty one.\<close>

definition no_arg0 :: "string list \<Rightarrow> bool" where
  "no_arg0 args = (case args of [] \<Rightarrow> True | a # as \<Rightarrow> a = [])"

definition echo_cmd :: "int \<Rightarrow> vfs \<Rightarrow> string \<Rightarrow> string list \<Rightarrow> rendered \<times> vfs" where
  "echo_cmd now st cmd args =
     (let fullCmd = trim cmd in
      if CHR ''>'' \<in> set fullCmd then
        (case map trim (split_on CHR ''>'' fullCmd) of
           echopart # filepart # others \<Rightarrow>
             let text = strip_quotes (substring_from echopart 5);
                 appendFlag = js_includes fullCmd ''>>'';
                 filename = trim (remove1 CHR ''>'' filepart)
             in show_error (writeFile now st filename (text @ [CHR 0x0A]) appendFlag)
         | _ \<Rightarrow> (Threw, st))
      else (Text (js_join '' '' args), st))"

definition runTermCmd :: "int \<Rightarrow> vfs \<Rightarrow> string \<Rightarrow> rendered \<times> vfs" where
  "runTermCmd now st cmd =
     (case split_ws (trim cmd) of
        [] \<Rightarrow> (Threw, st)
      | part0 # args \<Rightarrow>
          let command = toLowerCase part0 in
          if command = ''cd'' then
            show_error (cd st (if no_arg0 args then ''~'' else hd args))
          else if command = ''pwd'' then (Text (pwd st), st)
          else if command = ''mkdir'' then
            (if no_arg0 args then (Text ''mkdir: missing operand'', st)
             else show_error (mkdir st (hd args)))
          else if command = ''touch'' then
            (if no_arg0 args then (Text ''touch: missing file operand'', st)
             else show_error (touch now st (hd args)))
          else if command = ''rm'' then
            (if no_arg0 args then (Text ''rm: missing operand'', st)
             else
               let recursive = (''-r'' \<in> set args \<or> ''-rf'' \<in> set args) in
               case find (\<lambda>a. \<not> startsWith a ''-'') args of
                 None \<Rightarrow> (Threw, st)
               | Some file \<Rightarrow> show_error (rm st file recursive))
          else if command = ''cp'' then
            (case args of
               a # b # others \<Rightarrow> show_error (cp now st a b)
             | _ \<Rightarrow> (Text ''cp: missing file operand'', st))
          else if command = ''mv'' then
            (case args of
               a # b # others \<Rightarrow> show_error (mv now st a b)
             | _ \<Rightarrow> (Text ''mv: missing file operand'', st))
          else if command = ''cat'' then
            (if no_arg0 args then (Text ''cat: missing file operand'', st)
             else (case readFile st (hd args) of
                     Failure e \<Rightarrow> (Text e, st)
                   | Success c \<Rightarrow> (Text c, st)
                   | TypeError \<Rightarrow> (Threw, st)))
          else if command = ''echo'' then echo_cmd now st cmd args
          else if command \<in> set unmodelled_commands then (Unmodelled, st)
          else if command = [] then (Text [], st)
          else (Text (''bash: '' @ command @ '': command not found''), st))"

text \<open>A session: the commands are run in order, each on the state the one before left;
  the rendered lines are collected.\<close>

fun run_session :: "int \<Rightarrow> vfs \<Rightarrow> string list \<Rightarrow> rendered list \<times> vfs" where
  "run_session now st [] = ([], st)"
| "run_session now st (c # cs) =
     (let (out, st1) = runTermCmd now st c;
          (outs, st2) = run_session now st1 cs
      in (out # outs, st2))"

section \<open>Reference definitions\<close>

text \<open>The parent directory as the specification words it: the working directory is cut
  into its non-empty segments, the last one is dropped, the rest are put together again with
  a slash before each, and \<open>/\<close> is the result when no segment remains.\<close>

fun segs :: "string \<Rightarrow> string \<Rightarrow> string list" where
  "segs cur [] = (if cur = [] then [] else [cur])"
| "segs cur (x # xs) =
     (if x = CHR ''/'' then (if cur = [] then segs [] xs else cur # segs [] xs)
      else segs (cur @ [x]) xs)"

definition segments :: "string \<Rightarrow> string list" where
  "segments s = segs [] s"

definition dotdot_spec :: "string \<Rightarrow> string" where
  "dotdot_spec cwd =
     (let rest = butlast (segments cwd)
      in if rest = [] then ''/'' else concat (map (\<lambda>s. CHR ''/'' # s) rest))"

text \<open>Moving as the specification words it: a copy, then the removal of the source
  without the recursive flag; when the copy fails, the move fails with the same error,
  nothing is removed and nothing has changed.\<close>

definition move_spec :: "int \<Rightarrow> vfs \<Rightarrow> string \<Rightarrow> string \<Rightarrow> unit outcome \<times> vfs" where
  "move_spec now st a b =
     (case cp now st a b of
        (Success u, st1) \<Rightarrow> rm st1 a False
      | (r, st1) \<Rightarrow> (r, st))"

section \<open>The invariants of the tree\<close>

text \<open>A key is canonical here when it starts with one slash and not with two.\<close>

definition canonical_key :: "string \<Rightarrow> bool" where
  "canonical_key p = (startsWith p ''/'' \<and> \<not> startsWith p ''//'')"

text \<open>The path of a child, as the file explorer builds it:
  \<^verbatim>\<open>path === '/' ? '/' + name : path + '/' + name\<close>.\<close>

definition child_path :: "string \<Rightarrow> string \<Rightarrow> string" where
  "child_path d c = (if d = ''/'' then ''/'' @ c else d @ ''/'' @ c)"

text \<open>Invariants 1 to 4 of the data model, with \<open>dirname\<close> and \<open>basename\<close> the two
  expressions \<open>parentOf\<close> and \<open>nameOf\<close> of the code: the root is a directory; every other
  key has a directory as parent, which lists its name; no key and no child name is there
  twice; no key is a directory and a file.\<close>

definition inv_root :: "vfs \<Rightarrow> bool" where
  "inv_root st = isDir st ''/''"

definition inv_parent :: "vfs \<Rightarrow> bool" where
  "inv_parent st =
     list_all (\<lambda>(p, e). p = ''/'' \<or>
        (case map_of (fs st) (parentOf p) of Some (Dir cs) \<Rightarrow> nameOf p \<in> set cs | _ \<Rightarrow> False))
       (fs st)"

definition inv_unique :: "vfs \<Rightarrow> bool" where
  "inv_unique st =
     (distinct (map fst (fs st)) \<and>
      list_all (\<lambda>(p, e). case e of Dir cs \<Rightarrow> distinct cs | File c t \<Rightarrow> True) (fs st))"

definition inv_kind :: "vfs \<Rightarrow> bool" where
  "inv_kind st = list_all (\<lambda>(p, e). \<not> (isDir st p \<and> isFile st p)) (fs st)"

text \<open>Two more conditions make the four inductive: every key is canonical, and every
  child name is free of slashes and is the name of an entry that exists.\<close>

definition keys_canonical :: "vfs \<Rightarrow> bool" where
  "keys_canonical st = list_all (\<lambda>(p, e). canonical_key p) (fs st)"

definition children_exist :: "vfs \<Rightarrow> bool" where
  "children_exist st =
     list_all (\<lambda>(p, e). case e of
         Dir cs \<Rightarrow> list_all (\<lambda>c. CHR ''/'' \<notin> set c \<and> exists st (child_path p c)) cs
       | File c t \<Rightarrow> True) (fs st)"

definition tree_ok :: "vfs \<Rightarrow> bool" where
  "tree_ok st =
     (inv_root st \<and> inv_parent st \<and> inv_unique st \<and> inv_kind st \<and>
      keys_canonical st \<and> children_exist st)"

text \<open>The mutating operations of the store, and the resolved paths at which a call may
  create an entry.\<close>

datatype operation =
    MakeDirectory string
  | Touch string
  | WriteFile string string bool
  | Remove string bool
  | Copy string string
  | Move string string

fun perform :: "int \<Rightarrow> vfs \<Rightarrow> operation \<Rightarrow> unit outcome \<times> vfs" where
  "perform now st (MakeDirectory p) = mkdir st p"
| "perform now st (Touch p) = touch now st p"
| "perform now st (WriteFile p text appendFlag) = writeFile now st p text appendFlag"
| "perform now st (Remove p recursive) = rm st p recursive"
| "perform now st (Copy a b) = cp now st a b"
| "perform now st (Move a b) = mv now st a b"

fun created_paths :: "vfs \<Rightarrow> operation \<Rightarrow> string list" where
  "created_paths st (MakeDirectory p) = [resolvePath st p]"
| "created_paths st (Touch p) = [resolvePath st p]"
| "created_paths st (WriteFile p text appendFlag) = [resolvePath st p]"
| "created_paths st (Remove p recursive) = []"
| "created_paths st (Copy a b) = [resolvePath st b]"
| "created_paths st (Move a b) = [resolvePath st b]"

text \<open>The conditions of \<open>tree_ok\<close> other than the distinctness of the keys, read on the
  lookup function of the tree.\<close>

definition shape_ok :: "(string \<rightharpoonup> entry) \<Rightarrow> bool" where
  "shape_ok m =
     ((\<forall>p e. m p = Some e \<longrightarrow> canonical_key p) \<and>
      (\<exists>cs. m ''/'' = Some (Dir cs)) \<and>
      (\<forall>p e. m p = Some e \<and> p \<noteq> ''/'' \<longrightarrow>
         (\<exists>cs. m (parentOf p) = Some (Dir cs) \<and> nameOf p \<in> set cs)) \<and>
      (\<forall>p cs. m p = Some (Dir cs) \<longrightarrow>
         distinct cs \<and> (\<forall>c \<in> set cs. CHR ''/'' \<notin> set c \<and> m (child_path p c) \<noteq> None)))"

text \<open>What a removal leaves, read on the lookup function: \<open>under p k\<close> says that the key
  \<open>k\<close> is \<open>p\<close> or lies below it; \<open>removal st p st'\<close> that \<open>st'\<close> is \<open>st\<close> without the keys
  under \<open>p\<close> and without the name of \<open>p\<close> in its parent; \<open>emptied st p st'\<close> that \<open>st'\<close> is
  \<open>st\<close> without the keys below \<open>p\<close> and with \<open>p\<close> an empty directory.\<close>

definition under :: "string \<Rightarrow> string \<Rightarrow> bool" where
  "under p k = (k = p \<or> startsWith k (p @ ''/''))"

definition removal :: "vfs \<Rightarrow> string \<Rightarrow> vfs \<Rightarrow> bool" where
  "removal st p st' =
     (currentDir st' = currentDir st \<and> distinct (map fst (fs st')) \<and>
      (\<forall>k. map_of (fs st') k =
         (if under p k then None
          else if k = parentOf p
               then Some (Dir (remove1 (nameOf p) (children_at st (parentOf p))))
               else map_of (fs st) k)))"

definition emptied :: "vfs \<Rightarrow> string \<Rightarrow> vfs \<Rightarrow> bool" where
  "emptied st p st' =
     (currentDir st' = currentDir st \<and> distinct (map fst (fs st')) \<and>
      (\<forall>k. map_of (fs st') k =
         (if startsWith k (p @ ''/'') then None
          else if k = p then Some (Dir [])
               else map_of (fs st) k)))"

section \<open>Persistence\<close>

text \<open>\<^verbatim>\<open>JSON.stringify\<close> on a tree: an object whose members are the keys in their order,
  each entry an object with its properties in the order of the literal that made it; no
  white space; strings between double quotes, with the quote, the backslash and the
  characters below 32 escaped; the time stamp in decimal digits, as integers within the range
  of \<^verbatim>\<open>Date.now()\<close> are printed.\<close>

definition hex_digit :: "nat \<Rightarrow> char" where
  "hex_digit n = (if n < 10 then char_of (48 + n) else char_of (87 + n))"

definition json_escape :: "char \<Rightarrow> string" where
  "json_escape c =
     (if c = CHR 0x22 then [CHR 0x5C, CHR 0x22]
      else if c = CHR 0x5C then [CHR 0x5C, CHR 0x5C]
      else if c = CHR 0x08 then [CHR 0x5C, CHR ''b'']
      else if c = CHR 0x0C then [CHR 0x5C, CHR ''f'']
      else if c = CHR 0x0A then [CHR 0x5C, CHR ''n'']
      else if c = CHR 0x0D then [CHR 0x5C, CHR ''r'']
      else if c = CHR 0x09 then [CHR 0x5C, CHR ''t'']
      else if (of_char c :: nat) < 32
      then [CHR 0x5C, CHR ''u'', CHR ''0'', CHR ''0'',
            hex_digit (of_char c div 16), hex_digit (of_char c mod 16)]
      else [c])"

definition json_quote :: "string \<Rightarrow> string" where
  "json_quote s = CHR 0x22 # concat (map json_escape s) @ [CHR 0x22]"

fun show_nat :: "nat \<Rightarrow> string" where
  "show_nat n = (if n < 10 then [char_of (48 + n)] else show_nat (n div 10) @ [char_of (48 + n mod 10)])"

declare show_nat.simps [simp del]

definition show_int :: "int \<Rightarrow> string" where
  "show_int i = (if i < 0 then CHR ''-'' # show_nat (nat (- i)) else show_nat (nat i))"

definition stringify_entry :: "entry \<Rightarrow> string" where
  "stringify_entry e =
     (case e of
        Dir cs \<Rightarrow>
          [CHR ''{''] @ json_quote ''type'' @ '':'' @ json_quote ''dir'' @ '','' @
          json_quote ''children'' @ '':['' @ js_join '','' (map json_quote cs) @ '']}''
      | File c t \<Rightarrow>
          [CHR ''{''] @ json_quote ''type'' @ '':'' @ json_quote ''file'' @ '','' @
          json_quote ''content'' @ '':'' @ json_quote c @ '','' @
          json_quote ''created'' @ '':'' @ show_int t @ ''}'')"

definition JSON_stringify :: "tree \<Rightarrow> string" where
  "JSON_stringify t =
     [CHR ''{''] @ js_join '','' (map (\<lambda>(k, e). json_quote k @ '':'' @ stringify_entry e) t) @ ''}''"

text \<open>\<^verbatim>\<open>JSON.parse\<close>, on the texts that denote a tree: the text is cut into tokens (white
  space between tokens is skipped; an unescaped control character, a number with leading
  zeros, a fraction or an exponent, an escape of a character beyond the 8-bit range, and any
  other character end the reading with \<open>None\<close>), and the tokens are read as an object of
  entries.  \<open>None\<close> stands for a \<^verbatim>\<open>SyntaxError\<close> and for every text outside this model.
  A key that comes twice keeps its first place and takes the later value.\<close>

datatype token = LBrace | RBrace | LBracket | RBracket | Colon | Comma | Str string | Num int

definition is_digit :: "char \<Rightarrow> bool" where
  "is_digit c = ((of_char c :: nat) \<ge> 48 \<and> (of_char c :: nat) \<le> 57)"

definition hex_value :: "char \<Rightarrow> nat option" where
  "hex_value c =
     (let n = of_char c :: nat in
      if 48 \<le> n \<and> n \<le> 57 then Some (n - 48)
      else if 97 \<le> n \<and> n \<le> 102 then Some (n - 87)
      else if 65 \<le> n \<and> n \<le> 70 then Some (n - 55)
      else None)"

definition hex4 :: "char \<Rightarrow> char \<Rightarrow> char \<Rightarrow> char \<Rightarrow> char option" where
  "hex4 a b c d =
     (case (hex_value a, hex_value b, hex_value c, hex_value d) of
        (Some x, Some y, Some z, Some w) \<Rightarrow>
          if x = 0 \<and> y = 0 then Some (char_of (16 * z + w)) else None
      | _ \<Rightarrow> None)"

definition read_number :: "bool \<Rightarrow> string \<Rightarrow> int option" where
  "read_number negative ds =
     (if ds = [] \<or> (length ds > 1 \<and> hd ds = CHR ''0'') then None
      else let n = foldl (\<lambda>a d. 10 * a + (of_char d - 48)) (0::nat) ds
           in Some (if negative then - int n else int n))"

fun tokens :: "string \<Rightarrow> token list option"
  and scan_string :: "string \<Rightarrow> string \<Rightarrow> token list option"
  and scan_escape :: "string \<Rightarrow> string \<Rightarrow> token list option"
  and scan_number :: "bool \<Rightarrow> string \<Rightarrow> string \<Rightarrow> token list option" where
  "tokens [] = Some []"
| "tokens (c # cs) =
     (if c = CHR ''{'' then map_option (Cons LBrace) (tokens cs)
      else if c = CHR ''}'' then map_option (Cons RBrace) (tokens cs)
      else if c = CHR ''['' then map_option (Cons LBracket) (tokens cs)
      else if c = CHR '']'' then map_option (Cons RBracket) (tokens cs)
      else if c = CHR '':'' then map_option (Cons Colon) (tokens cs)
      else if c = CHR '','' then map_option (Cons Comma) (tokens cs)
      else if c = CHR 0x22 then scan_string [] cs
      else if c = CHR ''-'' then scan_number True [] cs
      else if is_digit c then scan_number False [c] cs
      else if c \<in> set [CHR 0x20, CHR 0x09, CHR 0x0A, CHR 0x0D] then tokens cs
      else None)"
| "scan_string acc [] = None"
| "scan_string acc (c # cs) =
     (if c = CHR 0x22 then map_option (Cons (Str (rev acc))) (tokens cs)
      else if c = CHR 0x5C then scan_escape acc cs
      else if (of_char c :: nat) < 32 then None
      else scan_string (c # acc) cs)"
| "scan_escape acc [] = None"
| "scan_escape acc (e # cs) =
     (if e = CHR 0x22 then scan_string (CHR 0x22 # acc) cs
      else if e = CHR 0x5C then scan_string (CHR 0x5C # acc) cs
      else if e = CHR ''/'' then scan_string (CHR ''/'' # acc) cs
      else if e = CHR ''b'' then scan_string (CHR 0x08 # acc) cs
      else if e = CHR ''f'' then scan_string (CHR 0x0C # acc) cs
      else if e = CHR ''n'' then scan_string (CHR 0x0A # acc) cs
      else if e = CHR ''r'' then scan_string (CHR 0x0D # acc) cs
      else if e = CHR ''t'' then scan_string (CHR 0x09 # acc) cs
      else if e = CHR ''u'' then
        (case cs of
           a # b # c # d # rest \<Rightarrow>
             (case hex4 a b c d of Some ch \<Rightarrow> scan_string (ch # acc) rest | None \<Rightarrow> None)
         | _ \<Rightarrow> None)
      else None)"
| "scan_number negative ds [] =
     (case read_number negative ds of Some n \<Rightarrow> Some [Num n] | None \<Rightarrow> None)"
| "scan_number negative ds (c # cs) =
     (if is_digit c then scan_number negative (ds @ [c]) cs
      else if c \<in> set [CHR ''.'', CHR ''e'', CHR ''E''] then None
      else (case read_number negative ds of
              Some n \<Rightarrow> map_option (Cons (Num n)) (tokens (c # cs))
            | None \<Rightarrow> None))"


fun elems :: "token list \<Rightarrow> (string list \<times> token list) option" where
  "elems (Str s # Comma # ts) = map_option (\<lambda>(xs, r). (s # xs, r)) (elems ts)"
| "elems (Str s # RBracket # ts) = Some ([s], ts)"
| "elems ts = None"

fun children_array :: "token list \<Rightarrow> (string list \<times> token list) option" where
  "children_array (LBracket # RBracket # ts) = Some ([], ts)"
| "children_array (LBracket # ts) = elems ts"
| "children_array ts = None"

definition parse_entry :: "token list \<Rightarrow> (entry \<times> token list) option" where
  "parse_entry ts =
     (case ts of
        LBrace # Str k1 # Colon # Str v1 # Comma # Str k2 # Colon # r1 \<Rightarrow>
          if k1 = ''type'' \<and> v1 = ''dir'' \<and> k2 = ''children'' then
            (case children_array r1 of
               Some (cs, RBrace # r) \<Rightarrow> Some (Dir cs, r)
             | _ \<Rightarrow> None)
          else if k1 = ''type'' \<and> v1 = ''file'' \<and> k2 = ''content'' then
            (case r1 of
               Str c # Comma # Str k3 # Colon # Num t # RBrace # r \<Rightarrow>
                 if k3 = ''created'' then Some (File c t, r) else None
             | _ \<Rightarrow> None)
          else None
      | _ \<Rightarrow> None)"

function members :: "token list \<Rightarrow> (string \<times> entry) list option" where
  "members ts =
     (case ts of
        Str k # Colon # r1 \<Rightarrow>
          (case parse_entry r1 of
             Some (e, r2) \<Rightarrow>
               (case r2 of
                  [RBrace] \<Rightarrow> Some [(k, e)]
                | Comma # r3 \<Rightarrow> map_option (Cons (k, e)) (members r3)
                | _ \<Rightarrow> None)
           | None \<Rightarrow> None)
      | _ \<Rightarrow> None)"
  by pat_completeness auto

definition parse_object :: "token list \<Rightarrow> (string \<times> entry) list option" where
  "parse_object ts =
     (case ts of
        [LBrace, RBrace] \<Rightarrow> Some []
      | LBrace # r \<Rightarrow> members r
      | _ \<Rightarrow> None)"

definition JSON_parse :: "string \<Rightarrow> tree option" where
  "JSON_parse s =
     (case tokens s of
        None \<Rightarrow> None
      | Some ts \<Rightarrow>
          map_option (foldl (\<lambda>t (k, e). AList.update k e t) []) (parse_object ts))"

text \<open>\<^verbatim>\<open>saveFS\<close>: \<open>item\<close> is the stored value of the key \<^verbatim>\<open>vfs\<close>, and \<open>accepts\<close> says
  whether \<^verbatim>\<open>localStorage.setItem\<close> takes the text; where it throws, the exception is caught
  and the stored value stays.  Every mutating operation ends with this call; it changes
  nothing but the storage, which is why the operations above do not carry it.\<close>

definition saveFS :: "(string \<Rightarrow> bool) \<Rightarrow> vfs \<Rightarrow> string option \<Rightarrow> string option" where
  "saveFS accepts st item =
     (let data = JSON_stringify (fs st) in if accepts data then Some data else item)"

text \<open>The tokens of the text that \<open>JSON_stringify\<close> writes.\<close>

fun strs_tokens :: "string list \<Rightarrow> token list" where
  "strs_tokens [] = []"
| "strs_tokens [x] = [Str x]"
| "strs_tokens (x # y # ys) = Str x # Comma # strs_tokens (y # ys)"

definition entry_tokens :: "entry \<Rightarrow> token list" where
  "entry_tokens e =
     (case e of
        Dir cs \<Rightarrow>
          [LBrace, Str ''type'', Colon, Str ''dir'', Comma, Str ''children'', Colon, LBracket]
          @ strs_tokens cs @ [RBracket, RBrace]
      | File c t \<Rightarrow>
          [LBrace, Str ''type'', Colon, Str ''file'', Comma, Str ''content'', Colon, Str c,
           Comma, Str ''created'', Colon, Num t, RBrace])"

fun members_tokens :: "tree \<Rightarrow> token list" where
  "members_tokens [] = []"
| "members_tokens [(k, e)] = Str k # Colon # entry_tokens e"
| "members_tokens ((k, e) # m # ms) = Str k # Colon # entry_tokens e @ Comma # members_tokens (m # ms)"

text \<open>A run of operations, each with the time of its call, whatever their outcomes.\<close>

fun run_ops :: "vfs \<Rightarrow> (int \<times> operation) list \<Rightarrow> vfs" where
  "run_ops st [] = st"
| "run_ops st ((now, op) # ops) = run_ops (snd (perform now st op)) ops"

section \<open>Termination of removal\<close>

lemma key_bound_ge: "map_of (fs st) p \<noteq> None \<Longrightarrow> length p \<le> key_bound st"
  unfolding key_bound_def by (intro Max_ge) (auto simp: finite_dom_map_of)

lemma key_bound_mono:
  assumes "dom (map_of (fs st')) \<subseteq> dom (map_of (fs st))"
  shows "key_bound st' \<le> key_bound st"
  unfolding key_bound_def
  by (rule Max_mono) (use assms in \<open>auto simp: finite_dom_map_of\<close>)

lemma unlink_keys: "dom (map_of (fs (snd (unlink st parent name)))) \<subseteq> dom (map_of (fs st))"
  by (auto simp: unlink_def update_conv' split: option.splits entry.splits if_splits)

lemma unlink_delete_keys:
  "dom (map_of (fs (snd (unlink (st\<lparr>fs := AList.delete p (fs st)\<rparr>) parent name))))
     \<subseteq> dom (map_of (fs st))"
  using unlink_keys[of "st\<lparr>fs := AList.delete p (fs st)\<rparr>" parent name]
  by (auto simp: delete_conv')

lemma rm_keys_partial:
  "rm_rm_children_dom (Inl (st, p0, r)) \<Longrightarrow>
     dom (map_of (fs (snd (rm st p0 r)))) \<subseteq> dom (map_of (fs st))"
  "rm_rm_children_dom (Inr (st, p, cs)) \<Longrightarrow>
     dom (map_of (fs (snd (rm_children st p cs)))) \<subseteq> dom (map_of (fs st))"
proof (induction st p0 r and st p cs rule: rm_rm_children.pinduct)
  case (1 st path0 recursive)
  let ?path = "resolvePath st path0"
  show ?case
  proof (cases "exists st ?path \<and> isDir st ?path \<and> recursive")
    case True
    obtain r st1 where res: "rm_children st ?path (children_at st ?path) = (r, st1)"
      by (cases "rm_children st ?path (children_at st ?path)")
    have sub1: "dom (map_of (fs st1)) \<subseteq> dom (map_of (fs st))"
      using True "1.IH"[of ?path] res by simp
    have eq: "rm st path0 recursive =
        (case r of
           Success u \<Rightarrow> unlink (st1\<lparr>fs := AList.delete ?path (fs st1)\<rparr>) (parentOf ?path) (nameOf ?path)
         | _ \<Rightarrow> (r, st1))"
      using True res by (subst rm.psimps[OF "1.hyps"]) (simp add: Let_def)
    show ?thesis
      using sub1 unlink_delete_keys[where st=st1 and p="?path" and parent="parentOf ?path" and name="nameOf ?path"]
      unfolding eq by (cases r) auto
  next
    case False
    then show ?thesis
      using unlink_delete_keys[where st=st and p="?path" and parent="parentOf ?path" and name="nameOf ?path"]
      by (auto simp: rm.psimps[OF "1.hyps"] Let_def)
  qed
next
  case (2 st path)
  then show ?case by (simp add: rm_children.psimps)
next
  case (3 st path child rest)
  obtain r st1 where res: "rm st (path @ ''/'' @ child) True = (r, st1)"
    by (cases "rm st (path @ ''/'' @ child) True")
  have sub1: "dom (map_of (fs st1)) \<subseteq> dom (map_of (fs st))"
    using "3.IH"(1) res by simp
  show ?case
  proof (cases r)
    case (Success u)
    then have "dom (map_of (fs (snd (rm_children st1 path rest)))) \<subseteq> dom (map_of (fs st1))"
      using "3.IH"(2)[of r st1] res by simp
    then show ?thesis
      using res sub1 Success
      by (auto simp: rm_children.psimps(2)[OF "3.hyps"])
  next
    case (Failure e)
    then have "dom (map_of (fs (snd (rm_children st1 path rest)))) \<subseteq> dom (map_of (fs st1))"
      using "3.IH"(3)[of r st1] res by simp
    then show ?thesis
      using res sub1 Failure
      by (auto simp: rm_children.psimps(2)[OF "3.hyps"])
  next
    case TypeError
    then show ?thesis
      using res sub1 by (simp add: rm_children.psimps(2)[OF "3.hyps"])
  qed
qed

lemma length_resolvePath_slash:
  "CHR ''/'' \<in> set s \<Longrightarrow> length s \<le> length (resolvePath st s)"
  by (auto simp: resolvePath_def)

termination rm
proof (relation "inv_image (less_than <*lex*> less_than <*lex*> less_than) rm_measure")
  show "wf (inv_image (less_than <*lex*> less_than <*lex*> less_than) rm_measure)"
    by (intro wf_inv_image wf_lex_prod wf_less_than)
next
  fix st :: vfs and path0 recursive x xa xb
  assume "x = resolvePath st path0" "\<not> \<not> exists st x"
  then show "(Inr (st, x, children_at st x), Inl (st, path0, recursive))
      \<in> inv_image (less_than <*lex*> less_than <*lex*> less_than) rm_measure"
    by (simp add: rm_measure_def)
next
  fix st :: vfs and path child rest
  let ?q = "resolvePath st (path @ ''/'' @ child)"
  have len: "length path < length ?q"
    using length_resolvePath_slash[of "path @ ''/'' @ child" st] by simp
  show "(Inl (st, path @ ''/'' @ child, True), Inr (st, path, child # rest))
      \<in> inv_image (less_than <*lex*> less_than <*lex*> less_than) rm_measure"
  proof (cases "exists st ?q")
    case True
    then have "length ?q \<le> key_bound st"
      by (simp add: exists_def key_bound_ge)
    with len True show ?thesis
      by (simp add: rm_measure_def Let_def)
  next
    case False
    then show ?thesis
      by (simp add: rm_measure_def Let_def) arith
  qed
next
  fix st :: vfs and path child rest x y x1
  assume "(x, y) = rm st (path @ ''/'' @ child) True"
    and "rm_rm_children_dom (Inl (st, path @ ''/'' @ child, True))"
  then have "key_bound y \<le> key_bound st"
    using rm_keys_partial(1)[of st "path @ ''/'' @ child" True]
    by (metis key_bound_mono snd_conv)
  then show "(Inr (y, path, rest), Inr (st, path, child # rest))
      \<in> inv_image (less_than <*lex*> less_than <*lex*> less_than) rm_measure"
    by (auto simp: rm_measure_def)
next
  fix st :: vfs and path child rest x y x2
  assume "(x, y) = rm st (path @ ''/'' @ child) True"
    and "rm_rm_children_dom (Inl (st, path @ ''/'' @ child, True))"
  then have "key_bound y \<le> key_bound st"
    using rm_keys_partial(1)[of st "path @ ''/'' @ child" True]
    by (metis key_bound_mono snd_conv)
  then show "(Inr (y, path, rest), Inr (st, path, child # rest))
      \<in> inv_image (less_than <*lex*> less_than <*lex*> less_than) rm_measure"
    by (auto simp: rm_measure_def)
qed

subsection \<open>Termination of the reading of members\<close>

lemma elems_shorter: "elems ts = Some (xs, r) \<Longrightarrow> length r < length ts"
  by (induction ts arbitrary: xs r rule: elems.induct) (auto split: prod.splits)

lemma children_array_shorter: "children_array ts = Some (xs, r) \<Longrightarrow> length r < length ts"
  by (induction ts rule: children_array.induct) (auto dest: elems_shorter)

lemma parse_entry_shorter: "parse_entry ts = Some (e, r) \<Longrightarrow> length r < length ts"
  by (auto simp: parse_entry_def split: list.splits token.splits if_splits option.splits prod.splits
           dest!: children_array_shorter)

termination members
proof (relation "measure length")
  show "wf (measure length)" by simp
next
  fix ts :: "token list" and x21 x22 x7 x21a x22a x2 x y x21b x22b
  assume "ts = x21 # x22" "x21 = Str x7" "x22 = x21a # x22a" "x21a = Colon"
    "parse_entry x22a = Some x2" "(x, y) = x2" "y = x21b # x22b" "x21b = Comma"
  then show "(x22b, ts) \<in> measure length"
    using parse_entry_shorter[of x22a x y] by simp
qed

declare members.simps [simp del]

text \<open>The defining equation of \<open>rm\<close> is unfolded by hand only.\<close>

declare rm.simps [simp del]

section \<open>Path resolution\<close>

lemma resolvePath_same_dir: "currentDir st' = currentDir st \<Longrightarrow> resolvePath st' p = resolvePath st p"
  by (simp add: resolvePath_def)

lemma resolvePath_slash: "startsWith p ''/'' \<Longrightarrow> resolvePath st p = p"
  by (simp add: resolvePath_def)

text \<open>
  \<^bold>\<open>C5.\<close> A path expression that begins with a slash is returned as it is, whatever the
  working directory: nothing is collapsed and no trailing slash is removed, so that
  \<open>/a/../b\<close> resolves to \<open>/a/../b\<close>.  Resolution reads the working directory only: the
  result is the same for every tree.  It always returns a string.
\<close>

theorem resolvePath_absolute:
  assumes "startsWith p ''/''"
  shows "resolvePath st p = p \<and>
         resolvePath st ''/a/../b'' = ''/a/../b'' \<and>
         resolvePath (st\<lparr>fs := t\<rparr>) q = resolvePath st q"
  using assms by (simp add: resolvePath_def startsWith_def)

theorem resolvePath_absolute_witness:
  "startsWith ''/tmp//x/./'' ''/'' \<and>
   resolvePath \<lparr>currentDir = ''/home/user'', fs = default_layout\<rparr> ''/tmp//x/./'' = ''/tmp//x/./''"
  using resolvePath_absolute[of "''/tmp//x/./''" "\<lparr>currentDir = ''/home/user'', fs = default_layout\<rparr>"]
  by (simp add: startsWith_def)

lemma split_on_nonempty: "split_on c s \<noteq> []"
  by (induction s) (auto split: list.splits)

lemma segs_split_on:
  "filter (\<lambda>p. p \<noteq> []) ((cur @ hd (split_on CHR ''/'' s)) # tl (split_on CHR ''/'' s)) = segs cur s"
proof (induction s arbitrary: cur)
  case Nil
  then show ?case by simp
next
  case (Cons x xs)
  show ?case
  proof (cases "x = CHR ''/''")
    case True
    then show ?thesis using Cons.IH[of "[]"] split_on_nonempty[of "CHR ''/''" xs]
      by (cases "split_on CHR ''/'' xs") auto
  next
    case False
    then show ?thesis using Cons.IH[of "cur @ [x]"] split_on_nonempty[of "CHR ''/''" xs]
      by (cases "split_on CHR ''/'' xs") auto
  qed
qed

lemma segments_split_on: "filter (\<lambda>p. p \<noteq> []) (split_on CHR ''/'' s) = segments s"
  using segs_split_on[of "[]" s] split_on_nonempty[of "CHR ''/''" s]
  by (cases "split_on CHR ''/'' s") (auto simp: segments_def)

lemma slash_join: "xs \<noteq> [] \<Longrightarrow> ''/'' @ js_join ''/'' xs = concat (map (\<lambda>s. CHR ''/'' # s) xs)"
  by (induction "''/''" xs rule: js_join.induct) auto

lemma resolvePath_dotdot: "resolvePath st ''..'' = dotdot_spec (currentDir st)"
proof -
  have "resolvePath st ''..'' = ''/'' @ js_join ''/'' (butlast (segments (currentDir st)))"
    by (simp add: resolvePath_def startsWith_def Let_def segments_split_on)
  then show ?thesis
    using slash_join[of "butlast (segments (currentDir st))"]
    by (auto simp: dotdot_spec_def Let_def)
qed

lemma runTermCmd_cd_dotdot: "runTermCmd now st ''cd ..'' = show_error (cd st ''..'')"
proof -
  have "split_ws (trim ''cd ..'') = [''cd'', ''..'']" by code_simp
  moreover have "toLowerCase ''cd'' = ''cd''" by code_simp
  ultimately show ?thesis
    by (simp add: runTermCmd_def no_arg0_def)
qed

lemma cd_dotdot_step:
  assumes "resolvePath st ''..'' = q" "isDir st q"
  shows "runTermCmd now st ''cd ..'' = (Text [], st\<lparr>currentDir := q\<rparr>)"
  using assms by (simp add: runTermCmd_cd_dotdot cd_def show_error_def isDir_def)

text \<open>
  \<^bold>\<open>C6.\<close> For every working directory, \<open>..\<close> resolves to what the specification describes:
  the working directory cut into segments, the last dropped, the rest joined with slashes,
  and \<open>/\<close> when none remains.  In the terminal, from \<open>/home/user\<close> in a tree where \<open>/home\<close> and
  \<open>/\<close> are directories, \<open>cd ..\<close> leads to \<open>/home\<close>, a second one to \<open>/\<close>, and a third one
  stays at \<open>/\<close>.
\<close>

theorem cd_dotdot:
  assumes "currentDir st = ''/home/user''" and "isDir st ''/home''" and "isDir st ''/''"
  shows "resolvePath s ''..'' = dotdot_spec (currentDir s) \<and>
         (let (o1, s1) = runTermCmd now st ''cd ..'';
              (o2, s2) = runTermCmd now s1 ''cd ..'';
              (o3, s3) = runTermCmd now s2 ''cd ..''
          in currentDir s1 = ''/home'' \<and> currentDir s2 = ''/'' \<and> currentDir s3 = ''/'')"
proof -
  let ?s1 = "st\<lparr>currentDir := ''/home''\<rparr>"
  let ?s2 = "st\<lparr>currentDir := ''/''\<rparr>"
  have r1: "resolvePath st ''..'' = ''/home''"
    using assms(1) by (simp add: resolvePath_def startsWith_def)
  have r2: "resolvePath ?s1 ''..'' = ''/''"
    by (simp add: resolvePath_def startsWith_def)
  have r3: "resolvePath ?s2 ''..'' = ''/''"
    by (simp add: resolvePath_def startsWith_def)
  have d1: "isDir ?s1 ''/''" and d2: "isDir ?s2 ''/''"
    using assms(3) by (simp_all add: isDir_def exists_def)
  have c1: "runTermCmd now st ''cd ..'' = (Text [], ?s1)"
    using cd_dotdot_step[OF r1] assms(2) by simp
  have c2: "runTermCmd now ?s1 ''cd ..'' = (Text [], ?s2)"
    using cd_dotdot_step[OF r2 d1] by simp
  have c3: "runTermCmd now ?s2 ''cd ..'' = (Text [], ?s2)"
    using cd_dotdot_step[OF r3 d2] by simp
  show ?thesis
    by (simp add: resolvePath_dotdot c1 c2 c3)
qed

theorem cd_dotdot_witness:
  "currentDir \<lparr>currentDir = ''/home/user'', fs = default_layout\<rparr> = ''/home/user'' \<and>
   isDir \<lparr>currentDir = ''/home/user'', fs = default_layout\<rparr> ''/home'' \<and>
   isDir \<lparr>currentDir = ''/home/user'', fs = default_layout\<rparr> ''/'' \<and>
   resolvePath \<lparr>currentDir = ''/a//b/'', fs = []\<rparr> ''..'' = ''/a'' \<and>
   currentDir (snd (runTermCmd 0 \<lparr>currentDir = ''/home/user'', fs = default_layout\<rparr> ''cd ..'')) = ''/home''"
proof -
  let ?st = "\<lparr>currentDir = ''/home/user'', fs = default_layout\<rparr>"
  have h1: "currentDir ?st = ''/home/user''" by simp
  have h2: "isDir ?st ''/home''" by code_simp
  have h3: "isDir ?st ''/''" by code_simp
  have e: "dotdot_spec ''/a//b/'' = ''/a''" by code_simp
  from cd_dotdot[OF h1 h2 h3, of "\<lparr>currentDir = ''/a//b/'', fs = []\<rparr>" 0]
  show ?thesis using h2 h3 e by (simp split: prod.splits)
qed

section \<open>Creating, writing, copying and moving\<close>

lemma push_child_dir:
  "map_of (fs st) parent = Some (Dir cs) \<Longrightarrow>
     push_child st parent name = Some (st\<lparr>fs := AList.update parent (Dir (cs @ [name])) (fs st)\<rparr>)"
  by (simp add: push_child_def)

lemma isDir_iff: "isDir st p \<longleftrightarrow> (\<exists>cs. map_of (fs st) p = Some (Dir cs))"
  by (auto simp: isDir_def exists_def split: option.splits entry.splits)

lemma isFile_iff: "isFile st p \<longleftrightarrow> (\<exists>c t. map_of (fs st) p = Some (File c t))"
  by (auto simp: isFile_def exists_def split: option.splits entry.splits)

lemma touch_existing: "exists st (resolvePath st p) \<Longrightarrow> touch now st p = (Success (), st)"
  by (simp add: touch_def)

lemma touch_cases:
  assumes "\<not> exists st (resolvePath st p)"
  shows "(\<exists>e. touch now st p = (Failure e, st)) \<or>
         (\<exists>cs. map_of (fs st) (parentOf (resolvePath st p)) = Some (Dir cs) \<and>
            touch now st p =
              (Success (),
               st\<lparr>fs := AList.update (parentOf (resolvePath st p)) (Dir (cs @ [nameOf (resolvePath st p)]))
                          (AList.update (resolvePath st p) (File [] now) (fs st))\<rparr>))"
proof (cases "isDir st (parentOf (resolvePath st p))")
  case False
  then show ?thesis using assms by (simp add: touch_def Let_def)
next
  case True
  then obtain cs where cs: "map_of (fs st) (parentOf (resolvePath st p)) = Some (Dir cs)"
    by (auto simp: isDir_iff)
  with assms have ne: "parentOf (resolvePath st p) \<noteq> resolvePath st p"
    by (auto simp: exists_def)
  have "map_of (fs (st\<lparr>fs := AList.update (resolvePath st p) (File [] now) (fs st)\<rparr>))
          (parentOf (resolvePath st p)) = Some (Dir cs)"
    using cs ne by (simp add: update_conv')
  from push_child_dir[OF this, of "nameOf (resolvePath st p)"] True assms cs
  show ?thesis by (simp add: touch_def Let_def)
qed

lemma touch_new_success:
  assumes "\<not> exists st (resolvePath st p)" and "touch now st p = (Success (), st1)"
  shows "map_of (fs st1) (resolvePath st p) = Some (File [] now) \<and> currentDir st1 = currentDir st"
proof -
  from touch_cases[OF assms(1), of now] assms(2)
  obtain cs where cs: "map_of (fs st) (parentOf (resolvePath st p)) = Some (Dir cs)"
    and st1: "st1 = st\<lparr>fs := AList.update (parentOf (resolvePath st p)) (Dir (cs @ [nameOf (resolvePath st p)]))
                          (AList.update (resolvePath st p) (File [] now) (fs st))\<rparr>"
    by auto
  from cs assms(1) have ne: "parentOf (resolvePath st p) \<noteq> resolvePath st p"
    by (auto simp: exists_def)
  show ?thesis using ne by (simp add: st1 update_conv')
qed

lemma touch_not_throwing: "fst (touch now st p) \<noteq> TypeError"
proof (cases "exists st (resolvePath st p)")
  case True
  then show ?thesis by (simp add: touch_existing)
next
  case False
  from touch_cases[OF this, of now] show ?thesis by auto
qed

lemma touch_failure_unchanged: "touch now st p = (Failure e, st1) \<Longrightarrow> st1 = st"
proof (cases "exists st (resolvePath st p)")
  case True
  assume "touch now st p = (Failure e, st1)"
  with True show ?thesis by (simp add: touch_existing)
next
  case False
  assume "touch now st p = (Failure e, st1)"
  with touch_cases[OF False, of now] show ?thesis by auto
qed

lemma writeFile_on_file:
  assumes "map_of (fs st) (resolvePath st p) = Some (File old t)"
  shows "writeFile now st p c a =
           (Success (), st\<lparr>fs := AList.update (resolvePath st p) (File (if a then old @ c else c) t) (fs st)\<rparr>)"
  using assms by (simp add: writeFile_def exists_def isFile_iff set_content_def)

lemma startsWith_slash: "startsWith s ''/'' \<longleftrightarrow> (\<exists>t. s = CHR ''/'' # t)"
  by (cases s) (auto simp: startsWith_def)

lemma resolvePath_starts_slash:
  assumes "startsWith (currentDir st) ''/''"
  shows "startsWith (resolvePath st p) ''/''"
proof -
  from assms obtain t where "currentDir st = CHR ''/'' # t"
    by (auto simp: startsWith_slash)
  then show ?thesis
    by (simp add: resolvePath_def Let_def startsWith_slash)
qed

lemma resolvePath_idem:
  "startsWith (currentDir st) ''/'' \<Longrightarrow> resolvePath st (resolvePath st p) = resolvePath st p"
  by (simp add: resolvePath_slash resolvePath_starts_slash)

lemma writeFile_not_success_unchanged:
  assumes "startsWith (currentDir st) ''/''"
    and "writeFile now st p c a = (r, st1)" and "r \<noteq> Success ()"
  shows "st1 = st \<and> r \<noteq> TypeError"
proof (cases "exists st (resolvePath st p)")
  case True
  with assms(2,3) show ?thesis
    by (auto simp: writeFile_def Let_def split: if_splits)
next
  case False
  let ?q = "resolvePath st p"
  have idem: "resolvePath st ?q = ?q" using assms(1) by (rule resolvePath_idem)
  obtain r0 s0 where t: "touch now st ?q = (r0, s0)" by (cases "touch now st ?q")
  show ?thesis
  proof (cases r0)
    case (Success u)
    with t False idem have "map_of (fs s0) ?q = Some (File [] now)"
      using touch_new_success[of st ?q now s0] by simp
    then have "isFile s0 ?q" by (simp add: isFile_iff)
    with assms(2,3) False t Success show ?thesis
      by (auto simp: writeFile_def Let_def)
  next
    case (Failure e)
    with t have "s0 = st" using touch_failure_unchanged by blast
    with assms(2,3) False t Failure show ?thesis
      by (auto simp: writeFile_def Let_def)
  next
    case TypeError
    with t touch_not_throwing[of now st ?q] show ?thesis by simp
  qed
qed

lemma readFile_not_throwing: "readFile st p \<noteq> TypeError"
  by (auto simp: readFile_def Let_def split: option.splits entry.splits)

lemma cp_not_success_unchanged:
  assumes "startsWith (currentDir st) ''/''"
    and "cp now st a b = (r, st1)" and "r \<noteq> Success ()"
  shows "st1 = st \<and> r \<noteq> TypeError"
proof (cases "\<not> exists st (resolvePath st a) \<or> isDir st (resolvePath st a)")
  case True
  with assms(2) show ?thesis by (auto simp: cp_def Let_def split: if_splits)
next
  case False
  show ?thesis
  proof (cases "readFile st (resolvePath st a)")
    case (Success c)
    with False assms(2) have "writeFile now st (resolvePath st b) c False = (r, st1)"
      by (simp add: cp_def Let_def)
    from writeFile_not_success_unchanged[OF assms(1) this assms(3)] show ?thesis .
  next
    case (Failure e)
    with False assms(2) show ?thesis by (auto simp: cp_def Let_def)
  next
    case TypeError
    with readFile_not_throwing show ?thesis by blast
  qed
qed

text \<open>
  \<^bold>\<open>C4.\<close> With the working directory an absolute path, moving \<open>a\<close> to \<open>b\<close> gives the
  result and the tree of copying \<open>a\<close> to \<open>b\<close> and then, when the copy succeeded, removing
  \<open>a\<close> without the recursive flag.  When the copy fails, the move returns the copy's
  error and the state is the one before the call; in particular the entry at \<open>a\<close> is as
  it was.
\<close>

theorem mv_is_cp_then_rm:
  assumes "startsWith (currentDir st) ''/''"
  shows "mv now st a b = move_spec now st a b \<and>
         (\<forall>e st1. cp now st a b = (Failure e, st1) \<longrightarrow>
            mv now st a b = (Failure e, st) \<and>
            map_of (fs (snd (mv now st a b))) (resolvePath st a) = map_of (fs st) (resolvePath st a))"
proof -
  obtain r st1 where c: "cp now st a b = (r, st1)" by (cases "cp now st a b")
  show ?thesis
  proof (cases "r = Success ()")
    case True
    with c show ?thesis by (simp add: mv_def move_spec_def)
  next
    case False
    from cp_not_success_unchanged[OF assms c False] have "st1 = st" "r \<noteq> TypeError" by auto
    with c False show ?thesis
      by (cases r) (auto simp: mv_def move_spec_def)
  qed
qed

theorem mv_is_cp_then_rm_witness:
  "startsWith (currentDir \<lparr>currentDir = ''/home/user'', fs = default_layout\<rparr>) ''/'' \<and>
   cp 0 \<lparr>currentDir = ''/home/user'', fs = default_layout\<rparr> ''Desktop'' ''x'' =
     (Failure ''cp: omitting directory (use -r for recursive)'', \<lparr>currentDir = ''/home/user'', fs = default_layout\<rparr>) \<and>
   mv 0 \<lparr>currentDir = ''/home/user'', fs = default_layout\<rparr> ''Desktop'' ''x'' =
     (Failure ''cp: omitting directory (use -r for recursive)'', \<lparr>currentDir = ''/home/user'', fs = default_layout\<rparr>)"
proof -
  let ?st = "\<lparr>currentDir = ''/home/user'', fs = default_layout\<rparr>"
  have h: "startsWith (currentDir ?st) ''/''" by (simp add: startsWith_def)
  have c: "cp 0 ?st ''Desktop'' ''x'' = (Failure ''cp: omitting directory (use -r for recursive)'', ?st)"
    by code_simp
  from mv_is_cp_then_rm[OF h, of 0 "''Desktop''" "''x''"] c
  have "mv 0 ?st ''Desktop'' ''x'' = (Failure ''cp: omitting directory (use -r for recursive)'', ?st)"
    by blast
  with c h show ?thesis by simp
qed

text \<open>
  \<^bold>\<open>C7.\<close> \<open>touch\<close> on a path that exists succeeds and changes nothing.  When \<open>touch\<close>
  has created a file at a path that did not exist and \<open>writeFile\<close> has then written
  \<open>c\<close> to it, a second \<open>touch\<close> succeeds, leaves the state as it is, and the file reads
  \<open>c\<close>.
\<close>

theorem touch_idempotent:
  "(exists st (resolvePath st p) \<longrightarrow> touch now st p = (Success (), st)) \<and>
   (\<not> exists st (resolvePath st p) \<and> touch now st p = (Success (), st1) \<and>
    writeFile now1 st1 p c a = (Success (), st2) \<longrightarrow>
      touch now2 st2 p = (Success (), st2) \<and> readFile st2 p = Success c)"
proof -
  have a: "touch now st p = (Success (), st)" if "exists st (resolvePath st p)"
    using that by (rule touch_existing)
  have b: "touch now2 st2 p = (Success (), st2) \<and> readFile st2 p = Success c"
    if h: "\<not> exists st (resolvePath st p) \<and> touch now st p = (Success (), st1) \<and>
       writeFile now1 st1 p c a = (Success (), st2)"
  proof -
    let ?q = "resolvePath st p"
    from h touch_new_success[of st p now st1]
    have f1: "map_of (fs st1) ?q = Some (File [] now)" and d1: "currentDir st1 = currentDir st"
      by auto
    have q1: "resolvePath st1 p = ?q" using d1 by (rule resolvePath_same_dir)
    from writeFile_on_file[of st1 p "[]" now now1 c a] f1 q1 h
    have st2: "st2 = st1\<lparr>fs := AList.update ?q (File c now) (fs st1)\<rparr>"
      by auto
    have "currentDir st2 = currentDir st" using d1 by (simp add: st2)
    then have q2: "resolvePath st2 p = ?q" by (rule resolvePath_same_dir)
    have f2: "map_of (fs st2) ?q = Some (File c now)"
      by (simp add: st2 update_conv')
    show ?thesis
      using q2 f2 by (simp add: touch_def readFile_def exists_def isFile_iff)
  qed
  show ?thesis using a b by blast
qed

theorem touch_idempotent_witness:
  "\<not> exists \<lparr>currentDir = ''/home/user'', fs = default_layout\<rparr>
       (resolvePath \<lparr>currentDir = ''/home/user'', fs = default_layout\<rparr> ''notes.txt'') \<and>
   fst (touch 5 \<lparr>currentDir = ''/home/user'', fs = default_layout\<rparr> ''notes.txt'') = Success () \<and>
   fst (writeFile 6 (snd (touch 5 \<lparr>currentDir = ''/home/user'', fs = default_layout\<rparr> ''notes.txt''))
          ''notes.txt'' ''abc'' False) = Success () \<and>
   readFile (snd (touch 7 (snd (writeFile 6 (snd (touch 5 \<lparr>currentDir = ''/home/user'', fs = default_layout\<rparr> ''notes.txt''))
          ''notes.txt'' ''abc'' False)) ''notes.txt'')) ''notes.txt'' = Success ''abc''"
proof -
  let ?st = "\<lparr>currentDir = ''/home/user'', fs = default_layout\<rparr>"
  let ?st1 = "snd (touch 5 ?st ''notes.txt'')"
  let ?st2 = "snd (writeFile 6 ?st1 ''notes.txt'' ''abc'' False)"
  have h1: "\<not> exists ?st (resolvePath ?st ''notes.txt'')" by code_simp
  have f2: "fst (touch 5 ?st ''notes.txt'') = Success ()" by code_simp
  have f3: "fst (writeFile 6 ?st1 ''notes.txt'' ''abc'' False) = Success ()" by code_simp
  have h2: "touch 5 ?st ''notes.txt'' = (Success (), ?st1)"
    using f2 by (metis prod.collapse)
  have h3: "writeFile 6 ?st1 ''notes.txt'' ''abc'' False = (Success (), ?st2)"
    using f3 by (metis prod.collapse)
  from touch_idempotent[of ?st "''notes.txt''" 5 ?st1 6 "''abc''" False ?st2 7] h1 h2 h3
  have t: "touch 7 ?st2 ''notes.txt'' = (Success (), ?st2)"
    and r: "readFile ?st2 ''notes.txt'' = Success ''abc''"
    by blast+
  have "readFile (snd (touch 7 ?st2 ''notes.txt'')) ''notes.txt'' = Success ''abc''"
    by (simp only: t snd_conv r)
  with h1 f2 f3 show ?thesis by blast
qed

section \<open>Removing the root\<close>

lemma rm_children_not_failure: "fst (rm_children st p cs) \<noteq> Failure e"
proof (induction cs arbitrary: st)
  case Nil
  then show ?case by simp
next
  case (Cons c cs)
  obtain r s1 where r: "rm st (p @ ''/'' @ c) True = (r, s1)"
    by (cases "rm st (p @ ''/'' @ c) True")
  show ?case using Cons.IH[of s1] r by (cases r) simp_all
qed

lemma rm_resolving_to_root:
  assumes "resolvePath st p = ''/''" and "isDir st ''/''"
  shows "fst (rm st p True) = TypeError"
proof -
  have ex: "exists st ''/''" using assms(2) by (simp add: isDir_def)
  have pn: "parentOf ''/'' = ''/''" by code_simp
  obtain r s1 where c: "rm_children st ''/'' (children_at st ''/'') = (r, s1)"
    by (cases "rm_children st ''/'' (children_at st ''/'')")
  have eq: "rm st p True =
      (case r of Success u \<Rightarrow> unlink (s1\<lparr>fs := AList.delete ''/'' (fs s1)\<rparr>) ''/'' (nameOf ''/'')
       | _ \<Rightarrow> (r, s1))"
    using assms ex c pn by (simp add: rm.simps Let_def)
  show ?thesis
  proof (cases r)
    case (Success u)
    then show ?thesis by (simp add: eq unlink_def delete_conv')
  next
    case (Failure e)
    with c rm_children_not_failure[of st "''/''" "children_at st ''/''" e] show ?thesis by simp
  next
    case TypeError
    then show ?thesis by (simp add: eq)
  qed
qed

text \<open>
  \<^bold>\<open>C1.\<close> The claim is that no operation of the store ever throws, and that removing
  \<open>/\<close> recursively returns a result.  The code does otherwise: whenever \<open>/\<close> is a
  directory, \<open>rm('/', true)\<close> ends by a \<open>TypeError\<close>.  The children are looked for under
  \<open>//name\<close>, the entry of \<open>/\<close> is deleted, and the parent of \<open>/\<close>, which is \<open>/\<close> itself,
  is then read from the tree that no longer has it.
\<close>

theorem rm_root_throws:
  assumes "isDir st ''/''"
  shows "fst (rm st ''/'' True) = TypeError"
  using rm_resolving_to_root[of st "''/''"] assms
  by (simp add: resolvePath_def startsWith_def)

theorem rm_root_throws_witness:
  "isDir \<lparr>currentDir = ''/home/user'', fs = default_layout\<rparr> ''/'' \<and>
   rm \<lparr>currentDir = ''/home/user'', fs = default_layout\<rparr> ''/'' True =
     (TypeError, \<lparr>currentDir = ''/home/user'', fs = tl default_layout\<rparr>)"
proof -
  let ?st = "\<lparr>currentDir = ''/home/user'', fs = default_layout\<rparr>"
  have h: "isDir ?st ''/''" by code_simp
  have s: "snd (rm ?st ''/'' True) = \<lparr>currentDir = ''/home/user'', fs = tl default_layout\<rparr>"
    by code_simp
  from rm_root_throws[OF h] s h show ?thesis
    by (cases "rm ?st ''/'' True") simp
qed

section \<open>Start-up\<close>

text \<open>
  \<^bold>\<open>C9\<close>, as the code has it.  When the key is missing or the payload does not parse, the
  store starts, without an error, in \<open>/home/user\<close> on the default layout; that layout has
  nine directories: the root, \<open>/home\<close>, \<open>/home/user\<close>, the three empty directories
  \<open>Desktop\<close>, \<open>Documents\<close> and \<open>Downloads\<close> under \<open>/home/user\<close>, and the three empty
  directories \<open>/etc\<close>, \<open>/var\<close> and \<open>/tmp\<close> under the root.
\<close>

theorem constructor_fallback:
  assumes "item = None \<or> (\<exists>d. item = Some d \<and> parse d = None)"
  shows "constructor parse item =
     \<lparr>currentDir = ''/home/user'',
      fs = [(''/'', Dir [''home'', ''etc'', ''var'', ''tmp'']),
            (''/home'', Dir [''user'']),
            (''/home/user'', Dir [''Desktop'', ''Documents'', ''Downloads'']),
            (''/home/user/Desktop'', Dir []),
            (''/home/user/Documents'', Dir []),
            (''/home/user/Downloads'', Dir []),
            (''/etc'', Dir []),
            (''/var'', Dir []),
            (''/tmp'', Dir [])]\<rparr>"
  using assms by (auto simp: constructor_def loadFS_def default_layout_def)

theorem constructor_fallback_witness:
  "(Some ''{vfs'' = None \<or> (\<exists>d. Some ''{vfs'' = Some d \<and> (\<lambda>s. if s = ''{vfs'' then None else Some []) d = None)) \<and>
   map fst (fs (constructor (\<lambda>s. if s = ''{vfs'' then None else Some []) (Some ''{vfs''))) =
     [''/'', ''/home'', ''/home/user'', ''/home/user/Desktop'', ''/home/user/Documents'',
      ''/home/user/Downloads'', ''/etc'', ''/var'', ''/tmp'']"
proof -
  let ?parse = "\<lambda>s::string. if s = ''{vfs'' then None else Some ([]::tree)"
  have h: "Some ''{vfs'' = None \<or> (\<exists>d. Some ''{vfs'' = Some d \<and> ?parse d = None)" by simp
  from constructor_fallback[of "Some ''{vfs''" ?parse, OF h] h show ?thesis by simp
qed

text \<open>The claim as it was stated lists six entries only; \<open>/tmp\<close> is an entry of the
  initial tree and not one of the six.\<close>

theorem default_layout_not_six_entries:
  "set (map fst (fs (constructor (\<lambda>s. None) None))) \<noteq>
     {''/'', ''/home'', ''/home/user'', ''/home/user/Desktop'', ''/home/user/Documents'',
      ''/home/user/Downloads''}"
proof -
  have "''/tmp'' \<in> set (map fst (fs (constructor (\<lambda>s. None) None)))"
    by (simp add: constructor_def loadFS_def default_layout_def)
  moreover have "''/tmp'' \<notin> {''/'', ''/home'', ''/home/user'', ''/home/user/Desktop'',
      ''/home/user/Documents'', ''/home/user/Downloads''}"
    by simp
  ultimately show ?thesis by metis
qed

section \<open>Redirection in the terminal\<close>

text \<open>
  \<^bold>\<open>C3.\<close> The claim is that, with \<open>/tmp\<close> an empty directory, \<open>echo "hi" > /tmp/x.txt\<close>
  followed by \<open>cat /tmp/x.txt\<close> shows \<open>hi\<close> and a line feed, and that
  \<open>echo "bye" >> /tmp/x.txt\<close> then appends, so that \<open>cat\<close> shows both lines.  The first half
  holds.  The second does not: the line is split at every \<open>>\<close>, the piece between the two
  \<open>>\<close> is empty and is taken as the file name, and \<open>bye\<close> is written to a file with the
  empty name in the working directory, at the key \<open>/home/user/\<close>.  The file \<open>/tmp/x.txt\<close>
  still reads \<open>hi\<close> and a line feed.
\<close>

theorem echo_append_misses_target:
  \<open>run_session 0 \<lparr>currentDir = ''/home/user'', fs = default_layout\<rparr>
     [''echo "hi" > /tmp/x.txt'', ''cat /tmp/x.txt'', ''echo "bye" >> /tmp/x.txt'', ''cat /tmp/x.txt'']
   = ([Text [], Text (''hi'' @ [CHR 0x0A]), Text [], Text (''hi'' @ [CHR 0x0A])],
      \<lparr>currentDir = ''/home/user'',
       fs = [(''/'', Dir [''home'', ''etc'', ''var'', ''tmp'']),
             (''/home'', Dir [''user'']),
             (''/home/user'', Dir [''Desktop'', ''Documents'', ''Downloads'', []]),
             (''/home/user/Desktop'', Dir []),
             (''/home/user/Documents'', Dir []),
             (''/home/user/Downloads'', Dir []),
             (''/etc'', Dir []),
             (''/var'', Dir []),
             (''/tmp'', Dir [''x.txt'']),
             (''/tmp/x.txt'', File (''hi'' @ [CHR 0x0A]) 0),
             (''/home/user/'', File (''bye'' @ [CHR 0x0A]) 0)]\<rparr>)\<close>
  by code_simp

section \<open>Moving a file onto itself\<close>

lemma rm_file:
  assumes "map_of (fs st) (resolvePath st a) = Some (File c t)"
  shows "rm st a r =
     unlink (st\<lparr>fs := AList.delete (resolvePath st a) (fs st)\<rparr>)
       (parentOf (resolvePath st a)) (nameOf (resolvePath st a))"
  using assms by (simp add: rm.simps exists_def isDir_iff Let_def)

text \<open>
  \<^bold>\<open>C10.\<close> Let \<open>p\<close> be an absolute path of a file whose parent is a directory with no
  name twice among its children, and let both arguments resolve to \<open>p\<close>.  Then the move
  reports success, the tree has no entry at \<open>p\<close> afterwards, and the name of \<open>p\<close> is no
  longer among the children of its parent: the file is lost.
\<close>

theorem self_move_destroys_file:
  assumes "startsWith p ''/''" and "resolvePath st a = p" and "resolvePath st b = p"
    and "map_of (fs st) p = Some (File c t)"
    and "map_of (fs st) (parentOf p) = Some (Dir cs)" and "distinct cs"
  shows "fst (mv now st a b) = Success () \<and>
         \<not> exists (snd (mv now st a b)) p \<and>
         nameOf p \<notin> set (children_at (snd (mv now st a b)) (parentOf p))"
proof -
  let ?st1 = "st\<lparr>fs := AList.update p (File c t) (fs st)\<rparr>"
  have ne: "parentOf p \<noteq> p" using assms(4,5) by auto
  have pp: "resolvePath st p = p" using assms(1) by (rule resolvePath_slash)
  have rd: "readFile st p = Success c"
    using assms(4) pp by (simp add: readFile_def exists_def isFile_iff)
  have wr: "writeFile now st p c False = (Success (), ?st1)"
    using writeFile_on_file[of st p c t now c False] assms(4) pp by simp
  have cp: "cp now st a b = (Success (), ?st1)"
    using assms(2,3,4) rd wr by (simp add: cp_def exists_def isDir_iff)
  have q1: "resolvePath ?st1 a = p"
    using assms(2) resolvePath_same_dir[of ?st1 st a] by simp
  have f1: "map_of (fs ?st1) (resolvePath ?st1 a) = Some (File c t)"
    by (simp add: q1 update_conv')
  have par: "map_of (fs (?st1\<lparr>fs := AList.delete p (fs ?st1)\<rparr>)) (parentOf p) = Some (Dir cs)"
    using ne assms(5) by (simp add: delete_conv' update_conv')
  have mv: "mv now st a b =
      (Success (), ?st1\<lparr>fs := AList.update (parentOf p) (Dir (remove1 (nameOf p) cs))
                                (AList.delete p (fs ?st1))\<rparr>)"
    using rm_file[OF f1, of False] par by (simp add: mv_def cp q1 unlink_def)
  have "nameOf p \<notin> set (remove1 (nameOf p) cs)"
    using assms(6) by simp
  then show ?thesis
    using ne by (simp add: mv exists_def children_at_def update_conv' delete_conv')
qed

theorem self_move_destroys_file_witness:
  "startsWith ''/tmp/x.txt'' ''/'' \<and>
   map_of [(''/'', Dir [''tmp'']), (''/tmp'', Dir [''x.txt'']), (''/tmp/x.txt'', File ''hi'' 1)] ''/tmp/x.txt''
     = Some (File ''hi'' 1) \<and>
   mv 2 \<lparr>currentDir = ''/'', fs = [(''/'', Dir [''tmp'']), (''/tmp'', Dir [''x.txt'']), (''/tmp/x.txt'', File ''hi'' 1)]\<rparr>
      ''/tmp/x.txt'' ''tmp/x.txt''
     = (Success (), \<lparr>currentDir = ''/'', fs = [(''/'', Dir [''tmp'']), (''/tmp'', Dir [])]\<rparr>)"
proof -
  let ?st = "\<lparr>currentDir = ''/'', fs = [(''/'', Dir [''tmp'']), (''/tmp'', Dir [''x.txt'']), (''/tmp/x.txt'', File ''hi'' 1)]\<rparr>"
  have h1: "startsWith ''/tmp/x.txt'' ''/''" by code_simp
  have h2: "resolvePath ?st ''/tmp/x.txt'' = ''/tmp/x.txt''" by code_simp
  have h3: "resolvePath ?st ''tmp/x.txt'' = ''/tmp/x.txt''" by code_simp
  have h4: "map_of (fs ?st) ''/tmp/x.txt'' = Some (File ''hi'' 1)" by simp
  have h5: "map_of (fs ?st) (parentOf ''/tmp/x.txt'') = Some (Dir [''x.txt''])" by code_simp
  have h6: "distinct [''x.txt'']" by simp
  have s: "snd (mv 2 ?st ''/tmp/x.txt'' ''tmp/x.txt'') = \<lparr>currentDir = ''/'', fs = [(''/'', Dir [''tmp'']), (''/tmp'', Dir [])]\<rparr>"
    by code_simp
  from self_move_destroys_file[OF h1 h2 h3 h4 h5 h6, of 2]
  have "fst (mv 2 ?st ''/tmp/x.txt'' ''tmp/x.txt'') = Success ()" by blast
  with s have "mv 2 ?st ''/tmp/x.txt'' ''tmp/x.txt'' =
      (Success (), \<lparr>currentDir = ''/'', fs = [(''/'', Dir [''tmp'']), (''/tmp'', Dir [])]\<rparr>)"
    by (metis prod.collapse)
  with h1 h4 show ?thesis by simp
qed

section \<open>Preservation of the invariants\<close>

subsection \<open>Parents, names and child paths\<close>

lemma lastIndexOf_split:
  assumes "c \<notin> set b"
  shows "lastIndexOf (a @ c # b) c = int (length a)"
proof -
  have "takeWhile (\<lambda>x. x \<noteq> c) (rev (a @ c # b)) = rev b"
    using assms by (auto simp: takeWhile_tail takeWhile_eq_all_conv)
  then show ?thesis by (simp add: lastIndexOf_def)
qed

lemma parentOf_split:
  "CHR ''/'' \<notin> set b \<Longrightarrow> parentOf (a @ CHR ''/'' # b) = (if a = [] then ''/'' else a)"
  by (simp add: parentOf_def lastIndexOf_split substring_def Let_def min_def max_def)

lemma nameOf_split: "CHR ''/'' \<notin> set b \<Longrightarrow> nameOf (a @ CHR ''/'' # b) = b"
proof -
  have "nat (int (length a) + 1) = Suc (length a)" by simp
  moreover assume "CHR ''/'' \<notin> set b"
  ultimately show ?thesis
    by (simp add: nameOf_def lastIndexOf_split substring_from_def)
qed

lemma canonical_split:
  assumes "canonical_key p"
  obtains a b where "p = a @ CHR ''/'' # b" and "CHR ''/'' \<notin> set b" and "a \<noteq> ''/''"
proof -
  from assms obtain t where t: "p = CHR ''/'' # t"
    by (auto simp: canonical_key_def startsWith_slash)
  then have "CHR ''/'' \<in> set p" by simp
  then obtain a b where ab: "p = a @ CHR ''/'' # b" "CHR ''/'' \<notin> set b"
    by (meson split_list_last)
  have "a \<noteq> ''/''"
  proof
    assume "a = ''/''"
    with ab have "startsWith p ''//''" by (simp add: startsWith_def)
    with assms show False by (simp add: canonical_key_def)
  qed
  with ab show ?thesis using that by blast
qed

lemma child_path_parent_name:
  assumes "canonical_key p"
  shows "child_path (parentOf p) (nameOf p) = p" and "CHR ''/'' \<notin> set (nameOf p)"
proof -
  from assms obtain a b where ab: "p = a @ CHR ''/'' # b" "CHR ''/'' \<notin> set b" "a \<noteq> ''/''"
    by (rule canonical_split)
  show "child_path (parentOf p) (nameOf p) = p"
    using ab by (simp add: parentOf_split nameOf_split child_path_def)
  show "CHR ''/'' \<notin> set (nameOf p)"
    using ab by (simp add: nameOf_split)
qed

lemma parent_name_child_path:
  assumes "d \<noteq> []" and "CHR ''/'' \<notin> set c"
  shows "parentOf (child_path d c) = d" and "nameOf (child_path d c) = c"
  using assms parentOf_split[of c d] nameOf_split[of c d]
    parentOf_split[of c "[]"] nameOf_split[of c "[]"]
  by (auto simp: child_path_def)

lemma parentOf_shorter:
  assumes "canonical_key p" and "p \<noteq> ''/''"
  shows "length (parentOf p) < length p"
proof -
  from assms(1) obtain a b where ab: "p = a @ CHR ''/'' # b" "CHR ''/'' \<notin> set b" "a \<noteq> ''/''"
    by (rule canonical_split)
  show ?thesis
  proof (cases "a = []")
    case True
    with ab assms(2) have "b \<noteq> []" by auto
    with True ab parentOf_split[of b "[]"] show ?thesis by simp
  next
    case False
    with ab show ?thesis by (simp add: parentOf_split)
  qed
qed

lemma canonical_nonempty: "canonical_key p \<Longrightarrow> p \<noteq> []"
  by (auto simp: canonical_key_def startsWith_def)

lemma shape_ok_canonical: "shape_ok m \<Longrightarrow> m p = Some e \<Longrightarrow> canonical_key p"
  unfolding shape_ok_def by blast

lemma shape_ok_root: "shape_ok m \<Longrightarrow> \<exists>cs. m ''/'' = Some (Dir cs)"
  unfolding shape_ok_def by blast

lemma shape_ok_parent:
  "shape_ok m \<Longrightarrow> m p = Some e \<Longrightarrow> p \<noteq> ''/'' \<Longrightarrow>
     \<exists>cs. m (parentOf p) = Some (Dir cs) \<and> nameOf p \<in> set cs"
  unfolding shape_ok_def by blast

lemma shape_ok_distinct: "shape_ok m \<Longrightarrow> m p = Some (Dir cs) \<Longrightarrow> distinct cs"
  unfolding shape_ok_def by blast

lemma shape_ok_child:
  "shape_ok m \<Longrightarrow> m p = Some (Dir cs) \<Longrightarrow> c \<in> set cs \<Longrightarrow>
     CHR ''/'' \<notin> set c \<and> m (child_path p c) \<noteq> None"
  unfolding shape_ok_def by blast

lemma shape_okI:
  assumes "\<And>p e. m p = Some e \<Longrightarrow> canonical_key p"
    and "\<exists>cs. m ''/'' = Some (Dir cs)"
    and "\<And>p e. m p = Some e \<Longrightarrow> p \<noteq> ''/'' \<Longrightarrow>
           \<exists>cs. m (parentOf p) = Some (Dir cs) \<and> nameOf p \<in> set cs"
    and "\<And>p cs. m p = Some (Dir cs) \<Longrightarrow> distinct cs"
    and "\<And>p cs c. m p = Some (Dir cs) \<Longrightarrow> c \<in> set cs \<Longrightarrow>
           CHR ''/'' \<notin> set c \<and> m (child_path p c) \<noteq> None"
  shows "shape_ok m"
  unfolding shape_ok_def using assms by blast

lemma tree_ok_shape:
  "tree_ok st \<longleftrightarrow> distinct (map fst (fs st)) \<and> shape_ok (map_of (fs st))"
proof
  assume ok: "tree_ok st"
  then have d: "distinct (map fst (fs st))" by (simp add: tree_ok_def inv_unique_def)
  have mem: "(p, e) \<in> set (fs st)" if "map_of (fs st) p = Some e" for p e
    using that by (rule map_of_SomeD)
  have a: "canonical_key p" if "map_of (fs st) p = Some e" for p e
    using ok mem[OF that] by (fastforce simp: tree_ok_def keys_canonical_def list_all_iff)
  have b: "\<exists>cs. map_of (fs st) ''/'' = Some (Dir cs)"
    using ok by (simp add: tree_ok_def inv_root_def isDir_iff)
  have c: "\<exists>cs. map_of (fs st) (parentOf p) = Some (Dir cs) \<and> nameOf p \<in> set cs"
    if "map_of (fs st) p = Some e" "p \<noteq> ''/''" for p e
    using ok mem[OF that(1)] that(2)
    by (fastforce simp: tree_ok_def inv_parent_def list_all_iff split: option.splits entry.splits)
  have e: "distinct cs" if "map_of (fs st) p = Some (Dir cs)" for p cs
    using ok mem[OF that] by (fastforce simp: tree_ok_def inv_unique_def list_all_iff)
  have f: "CHR ''/'' \<notin> set c \<and> map_of (fs st) (child_path p c) \<noteq> None"
    if "map_of (fs st) p = Some (Dir cs)" "c \<in> set cs" for p cs c
    using ok mem[OF that(1)] that(2)
    by (fastforce simp: tree_ok_def children_exist_def list_all_iff exists_def)
  have "shape_ok (map_of (fs st))"
    using a b c e f by (intro shape_okI) blast+
  with d show "distinct (map fst (fs st)) \<and> shape_ok (map_of (fs st))" by simp
next
  assume h: "distinct (map fst (fs st)) \<and> shape_ok (map_of (fs st))"
  then have d: "distinct (map fst (fs st))" and s: "shape_ok (map_of (fs st))" by auto
  have look: "map_of (fs st) p = Some e" if "(p, e) \<in> set (fs st)" for p e
    using that d by simp
  have "inv_root st"
    using shape_ok_root[OF s] by (auto simp: inv_root_def isDir_iff)
  moreover have "inv_parent st"
    unfolding inv_parent_def list_all_iff
  proof (intro ballI)
    fix x assume x: "x \<in> set (fs st)"
    obtain p e where pe: "x = (p, e)" by (cases x)
    show "case x of (p, e) \<Rightarrow> p = ''/'' \<or>
        (case map_of (fs st) (parentOf p) of Some (Dir cs) \<Rightarrow> nameOf p \<in> set cs | _ \<Rightarrow> False)"
    proof (cases "p = ''/''")
      case True
      then show ?thesis by (simp add: pe)
    next
      case False
      from shape_ok_parent[OF s look False, of e] x pe
      obtain cs where "map_of (fs st) (parentOf p) = Some (Dir cs)" "nameOf p \<in> set cs"
        by auto
      then show ?thesis by (simp add: pe)
    qed
  qed
  moreover have "inv_unique st"
    unfolding inv_unique_def list_all_iff
  proof (intro conjI ballI)
    show "distinct (map fst (fs st))" by (rule d)
  next
    fix x assume x: "x \<in> set (fs st)"
    obtain p e where pe: "x = (p, e)" by (cases x)
    show "case x of (p, e) \<Rightarrow> (case e of Dir cs \<Rightarrow> distinct cs | File c t \<Rightarrow> True)"
    proof (cases e)
      case (Dir cs)
      with x pe have "map_of (fs st) p = Some (Dir cs)" using look by simp
      from shape_ok_distinct[OF s this] show ?thesis by (simp add: pe Dir)
    next
      case (File c t)
      then show ?thesis by (simp add: pe)
    qed
  qed
  moreover have "\<not> (isDir st p \<and> isFile st p)" for p
    by (cases "map_of (fs st) p") (auto simp: isDir_def isFile_def split: entry.splits)
  then have "inv_kind st"
    by (simp add: inv_kind_def list_all_iff split: prod.splits)
  moreover have "keys_canonical st"
    unfolding keys_canonical_def list_all_iff
  proof (intro ballI)
    fix x assume x: "x \<in> set (fs st)"
    obtain p e where pe: "x = (p, e)" by (cases x)
    show "case x of (p, e) \<Rightarrow> canonical_key p"
      using shape_ok_canonical[OF s look, of p e] x pe by simp
  qed
  moreover have "children_exist st"
    unfolding children_exist_def list_all_iff
  proof (intro ballI)
    fix x assume x: "x \<in> set (fs st)"
    obtain p e where pe: "x = (p, e)" by (cases x)
    show "case x of (p, e) \<Rightarrow> (case e of
         Dir cs \<Rightarrow> \<forall>c\<in>set cs. CHR ''/'' \<notin> set c \<and> exists st (child_path p c)
       | File c t \<Rightarrow> True)"
    proof (cases e)
      case (Dir cs)
      with x pe have "map_of (fs st) p = Some (Dir cs)" using look by simp
      from shape_ok_child[OF s this] show ?thesis by (simp add: pe Dir exists_def)
    next
      case (File c t)
      then show ?thesis by (simp add: pe)
    qed
  qed
  ultimately show "tree_ok st" by (simp add: tree_ok_def)
qed

subsection \<open>The conditions on the lookup function\<close>

lemma canonical_same_parent_name:
  assumes "canonical_key k" and "canonical_key p"
    and "parentOf k = parentOf p" and "nameOf k = nameOf p"
  shows "k = p"
proof -
  have "k = child_path (parentOf k) (nameOf k)"
    using child_path_parent_name(1)[OF assms(1)] by simp
  also have "\<dots> = child_path (parentOf p) (nameOf p)"
    by (simp only: assms(3,4))
  also have "\<dots> = p"
    by (rule child_path_parent_name(1)[OF assms(2)])
  finally show ?thesis .
qed

lemma shape_ok_create:
  assumes ok: "shape_ok m" and new: "m q = None" and can: "canonical_key q"
    and par: "m (parentOf q) = Some (Dir cs)"
    and e: "e = Dir [] \<or> (\<exists>c t. e = File c t)"
  shows "shape_ok (m(q \<mapsto> e, parentOf q \<mapsto> Dir (cs @ [nameOf q])))"
    (is "shape_ok ?m'")
proof (rule shape_okI)
  have ne: "parentOf q \<noteq> q" using new par by auto
  have dom: "?m' k \<noteq> None" if "m k \<noteq> None" for k using that by simp
  have fresh: "nameOf q \<notin> set cs"
  proof
    assume "nameOf q \<in> set cs"
    from shape_ok_child[OF ok par this] child_path_parent_name(1)[OF can] new
    show False by simp
  qed
  {
    fix p e' assume "?m' p = Some e'"
    then show "canonical_key p"
      using can shape_ok_canonical[OF ok par] shape_ok_canonical[OF ok, of p e']
      by (auto split: if_splits)
  next
    from shape_ok_root[OF ok] new show "\<exists>cs. ?m' ''/'' = Some (Dir cs)"
      by auto
  next
    fix p e' assume p: "?m' p = Some e'" "p \<noteq> ''/''"
    show "\<exists>cs. ?m' (parentOf p) = Some (Dir cs) \<and> nameOf p \<in> set cs"
    proof (cases "p = q")
      case True
      then show ?thesis by simp
    next
      case False
      with p(1) par obtain e0 where "m p = Some e0" by (auto split: if_splits)
      from shape_ok_parent[OF ok this p(2)]
      obtain cs2 where c2: "m (parentOf p) = Some (Dir cs2)" "nameOf p \<in> set cs2" by auto
      with new have "parentOf p \<noteq> q" by auto
      with c2 par show ?thesis by auto
    qed
  next
    fix p cs' assume "?m' p = Some (Dir cs')"
    then show "distinct cs'"
      using e fresh shape_ok_distinct[OF ok par] shape_ok_distinct[OF ok, of p cs'] ne
      by (auto split: if_splits)
  next
    fix p cs' c assume p: "?m' p = Some (Dir cs')" and c: "c \<in> set cs'"
    show "CHR ''/'' \<notin> set c \<and> ?m' (child_path p c) \<noteq> None"
    proof (cases "p = parentOf q")
      case True
      with p have cs': "cs' = cs @ [nameOf q]" by simp
      show ?thesis
      proof (cases "c \<in> set cs")
        case True
        from shape_ok_child[OF ok par this] dom \<open>p = parentOf q\<close> show ?thesis by blast
      next
        case False
        with c cs' have "c = nameOf q" by simp
        with child_path_parent_name[OF can] \<open>p = parentOf q\<close> show ?thesis by simp
      qed
    next
      case False
      show ?thesis
      proof (cases "p = q")
        case True
        with p e ne c show ?thesis by auto
      next
        case nq: False
        with False p have "m p = Some (Dir cs')" by simp
        from shape_ok_child[OF ok this c] dom show ?thesis by blast
      qed
    qed
  }
qed

lemma shape_ok_content:
  assumes ok: "shape_ok m" and f: "m q = Some (File c t)"
  shows "shape_ok (m(q \<mapsto> File c' t'))" (is "shape_ok ?m'")
proof (rule shape_okI)
  have dom: "?m' k \<noteq> None" if "m k \<noteq> None" for k using that by simp
  have dir: "m k = Some (Dir cs)" if "?m' k = Some (Dir cs)" for k cs
    using that by (auto split: if_splits)
  have dir': "?m' k = Some (Dir cs)" if "m k = Some (Dir cs)" for k cs
    using that f by auto
  {
    fix p e assume "?m' p = Some e"
    then show "canonical_key p"
      using shape_ok_canonical[OF ok f] shape_ok_canonical[OF ok, of p e]
      by (auto split: if_splits)
  next
    from shape_ok_root[OF ok] dir' show "\<exists>cs. ?m' ''/'' = Some (Dir cs)" by blast
  next
    fix p e assume p: "?m' p = Some e" "p \<noteq> ''/''"
    then obtain e0 where "m p = Some e0" using f by (auto split: if_splits)
    from shape_ok_parent[OF ok this p(2)] dir'
    show "\<exists>cs. ?m' (parentOf p) = Some (Dir cs) \<and> nameOf p \<in> set cs" by blast
  next
    fix p cs assume "?m' p = Some (Dir cs)"
    from shape_ok_distinct[OF ok dir[OF this]] show "distinct cs" .
  next
    fix p cs x assume "?m' p = Some (Dir cs)" "x \<in> set cs"
    from shape_ok_child[OF ok dir[OF this(1)] this(2)] dom
    show "CHR ''/'' \<notin> set x \<and> ?m' (child_path p x) \<noteq> None" by blast
  }
qed

lemma shape_ok_remove:
  assumes ok: "shape_ok m" and p: "m p \<noteq> None" "p \<noteq> ''/''"
    and par: "m (parentOf p) = Some (Dir cs)"
    and S: "p \<in> S" "parentOf p \<notin> S" "''/'' \<notin> S"
    and up: "\<And>k. m k \<noteq> None \<Longrightarrow> k \<notin> S \<Longrightarrow> k \<noteq> ''/'' \<Longrightarrow> parentOf k \<notin> S"
    and down: "\<And>k. m k \<noteq> None \<Longrightarrow> k \<in> S \<Longrightarrow> k \<noteq> p \<Longrightarrow> parentOf k \<in> S"
    and m': "\<And>k. m' k = (if k \<in> S then None
                         else if k = parentOf p then Some (Dir (remove1 (nameOf p) cs))
                         else m k)"
  shows "shape_ok m'"
proof (rule shape_okI)
  from p obtain ep where ep: "m p = Some ep" by auto
  have canp: "canonical_key p" using shape_ok_canonical[OF ok ep] .
  have dcs: "distinct cs" using shape_ok_distinct[OF ok par] .
  have old: "m k \<noteq> None \<and> k \<notin> S" if "m' k = Some e" for k e
    using that par by (auto simp: m' split: if_splits)
  have keep: "m' k \<noteq> None" if "m k \<noteq> None" "k \<notin> S" for k
    using that by (simp add: m')
  have dirs: "\<exists>cs0. m k = Some (Dir cs0) \<and> set cs' \<subseteq> set cs0 \<and>
                (k = parentOf p \<longrightarrow> nameOf p \<notin> set cs') \<and> (distinct cs0 \<longrightarrow> distinct cs')"
    if "m' k = Some (Dir cs')" for k cs'
  proof (cases "k = parentOf p")
    case True
    with that S(2) have "cs' = remove1 (nameOf p) cs" by (simp add: m')
    with True par dcs show ?thesis by (auto dest: notin_set_remove1)
  next
    case False
    with that have "m k = Some (Dir cs')" by (auto simp: m' split: if_splits)
    with False show ?thesis by auto
  qed
  {
    fix k e assume "m' k = Some e"
    with old[OF this] show "canonical_key k"
      using shape_ok_canonical[OF ok] by auto
  next
    from shape_ok_root[OF ok] S(3) show "\<exists>cs. m' ''/'' = Some (Dir cs)"
      by (auto simp: m')
  next
    fix k e assume k: "m' k = Some e" "k \<noteq> ''/''"
    from old[OF k(1)] obtain e0 where e0: "m k = Some e0" and kS: "k \<notin> S" by auto
    have cank: "canonical_key k" using shape_ok_canonical[OF ok e0] .
    from shape_ok_parent[OF ok e0 k(2)]
    obtain cs2 where c2: "m (parentOf k) = Some (Dir cs2)" "nameOf k \<in> set cs2" by auto
    have pS: "parentOf k \<notin> S" using up[of k] e0 kS k(2) by simp
    show "\<exists>cs. m' (parentOf k) = Some (Dir cs) \<and> nameOf k \<in> set cs"
    proof (cases "parentOf k = parentOf p")
      case True
      have "nameOf k \<noteq> nameOf p"
      proof
        assume "nameOf k = nameOf p"
        from canonical_same_parent_name[OF cank canp True this] kS S(1) show False by simp
      qed
      with True c2 par pS show ?thesis by (simp add: m')
    next
      case False
      with c2 pS show ?thesis by (simp add: m')
    qed
  next
    fix k cs' assume "m' k = Some (Dir cs')"
    from dirs[OF this] shape_ok_distinct[OF ok] show "distinct cs'" by blast
  next
    fix k cs' c assume k: "m' k = Some (Dir cs')" and c: "c \<in> set cs'"
    from dirs[OF k] obtain cs0 where cs0: "m k = Some (Dir cs0)" "set cs' \<subseteq> set cs0"
      "k = parentOf p \<longrightarrow> nameOf p \<notin> set cs'" by auto
    from old[OF k] have kS: "k \<notin> S" by simp
    have cank: "canonical_key k" using shape_ok_canonical[OF ok cs0(1)] .
    from c cs0(2) have "c \<in> set cs0" by auto
    from shape_ok_child[OF ok cs0(1) this]
    have sl: "CHR ''/'' \<notin> set c" and ex: "m (child_path k c) \<noteq> None" by auto
    have pn: "parentOf (child_path k c) = k" "nameOf (child_path k c) = c"
      using parent_name_child_path[OF canonical_nonempty[OF cank] sl] by auto
    have "child_path k c \<notin> S"
    proof
      assume inS: "child_path k c \<in> S"
      show False
      proof (cases "child_path k c = p")
        case True
        with pn have "k = parentOf p" "c = nameOf p" by auto
        with cs0(3) c show False by simp
      next
        case False
        from down[OF ex inS False] pn(1) kS show False by simp
      qed
    qed
    from keep[OF ex this] sl show "CHR ''/'' \<notin> set c \<and> m' (child_path k c) \<noteq> None" by simp
  }
qed

subsection \<open>Keys below a path\<close>

lemma startsWith_iff: "startsWith s pre \<longleftrightarrow> (\<exists>t. s = pre @ t)"
proof
  assume "startsWith s pre"
  then have "s = pre @ drop (length pre) s"
    by (metis append_take_drop_id startsWith_def)
  then show "\<exists>t. s = pre @ t" ..
next
  assume "\<exists>t. s = pre @ t"
  then show "startsWith s pre" by (auto simp: startsWith_def)
qed

lemma under_parent:
  assumes "canonical_key k" and "startsWith k (p @ ''/'')" and "p \<noteq> []"
  shows "under p (parentOf k)"
proof -
  from assms(1) obtain a b where ab: "k = a @ CHR ''/'' # b" "CHR ''/'' \<notin> set b" "a \<noteq> ''/''"
    by (rule canonical_split)
  from assms(2) obtain t where t: "k = p @ CHR ''/'' # t"
    by (auto simp: startsWith_iff)
  from ab(1) t have "p @ CHR ''/'' # t = a @ CHR ''/'' # b" by simp
  then obtain us where us: "(p = a @ us \<and> us @ CHR ''/'' # t = CHR ''/'' # b) \<or>
      (p @ us = a \<and> CHR ''/'' # t = us @ CHR ''/'' # b)"
    by (auto simp: append_eq_append_conv2)
  have "a = p \<or> (\<exists>r. a = p @ CHR ''/'' # r)"
  proof (cases us)
    case Nil
    with us show ?thesis by auto
  next
    case (Cons u us')
    from us show ?thesis
    proof
      assume h: "p = a @ us \<and> us @ CHR ''/'' # t = CHR ''/'' # b"
      with Cons have "b = us' @ CHR ''/'' # t" by simp
      with ab(2) show ?thesis by simp
    next
      assume h: "p @ us = a \<and> CHR ''/'' # t = us @ CHR ''/'' # b"
      with Cons have "u = CHR ''/''" by simp
      with h Cons show ?thesis by auto
    qed
  qed
  moreover have "a \<noteq> []" using calculation assms(3) by auto
  ultimately show ?thesis
    using ab by (auto simp: under_def parentOf_split startsWith_iff)
qed

lemma under_child:
  assumes "canonical_key k" and "k \<noteq> ''/''" and "under p (parentOf k)" and "canonical_key p" and "p \<noteq> ''/''"
  shows "startsWith k (p @ ''/'')"
proof -
  have k: "k = child_path (parentOf k) (nameOf k)"
    using child_path_parent_name(1)[OF assms(1)] by simp
  from assms(3) show ?thesis unfolding under_def
  proof
    assume "parentOf k = p"
    with k assms(5) have "k = p @ ''/'' @ nameOf k" by (simp add: child_path_def)
    then show ?thesis by (metis append.assoc startsWith_iff)
  next
    assume "startsWith (parentOf k) (p @ ''/'')"
    then obtain t where t: "parentOf k = (p @ ''/'') @ t" by (auto simp: startsWith_iff)
    have "p \<noteq> []" using assms(4) by (rule canonical_nonempty)
    with t have "parentOf k \<noteq> ''/''" by (cases p) auto
    with k have "k = parentOf k @ ''/'' @ nameOf k" by (simp add: child_path_def)
    with t have "k = (p @ ''/'') @ (t @ ''/'' @ nameOf k)" by simp
    then show ?thesis unfolding startsWith_iff by blast
  qed
qed

lemma not_under_self_parent:
  assumes "canonical_key p" and "p \<noteq> ''/''"
  shows "\<not> under p (parentOf p)" and "\<not> under p ''/''"
proof -
  have len: "length (parentOf p) < length p" using assms by (rule parentOf_shorter)
  have ne: "p \<noteq> []" using assms(1) by (rule canonical_nonempty)
  show "\<not> under p (parentOf p)"
    using len by (auto simp: under_def startsWith_iff)
  show "\<not> under p ''/''"
    using assms(2) ne by (cases p) (auto simp: under_def startsWith_iff)
qed

lemma no_descendants:
  assumes ok: "shape_ok m" and p: "m p = Some e" and leaf: "e = Dir [] \<or> (\<exists>c t. e = File c t)"
    and k: "startsWith k (p @ ''/'')"
  shows "m k = None"
  using k
proof (induction "length k" arbitrary: k rule: less_induct)
  case less
  show ?case
  proof (rule ccontr)
    assume "m k \<noteq> None"
    then obtain ek where ek: "m k = Some ek" by auto
    have cank: "canonical_key k" using shape_ok_canonical[OF ok ek] .
    have canp: "canonical_key p" using shape_ok_canonical[OF ok p] .
    have pne: "p \<noteq> []" using canp by (rule canonical_nonempty)
    from less.prems pne have kr: "k \<noteq> ''/''" by (cases p) (auto simp: startsWith_iff)
    from shape_ok_parent[OF ok ek kr]
    obtain cs where cs: "m (parentOf k) = Some (Dir cs)" "nameOf k \<in> set cs" by auto
    from under_parent[OF cank less.prems pne] show False unfolding under_def
    proof
      assume "parentOf k = p"
      with cs p leaf show False by auto
    next
      assume s: "startsWith (parentOf k) (p @ ''/'')"
      have "length (parentOf k) < length k" using cank kr by (rule parentOf_shorter)
      from less.hyps[OF this s] cs show False by simp
    qed
  qed
qed

lemma tree_ok_removal:
  assumes ok: "tree_ok st" and p: "exists st p" "p \<noteq> ''/''" and r: "removal st p st'"
  shows "tree_ok st'"
proof -
  from ok have d: "distinct (map fst (fs st))" and s: "shape_ok (map_of (fs st))"
    by (simp_all add: tree_ok_shape)
  from p(1) obtain e where e: "map_of (fs st) p = Some e" by (auto simp: exists_def)
  have canp: "canonical_key p" using shape_ok_canonical[OF s e] .
  from shape_ok_parent[OF s e p(2)]
  obtain cs where cs: "map_of (fs st) (parentOf p) = Some (Dir cs)" by auto
  then have ca: "children_at st (parentOf p) = cs" by (simp add: children_at_def)
  have "shape_ok (map_of (fs st'))"
  proof (rule shape_ok_remove[where m="map_of (fs st)" and p=p and cs=cs and S="{k. under p k}"])
    show "shape_ok (map_of (fs st))" by (rule s)
    show "map_of (fs st) p \<noteq> None" using e by simp
    show "p \<noteq> ''/''" by (rule p(2))
    show "map_of (fs st) (parentOf p) = Some (Dir cs)" by (rule cs)
    show "p \<in> {k. under p k}" by (simp add: under_def)
    show "parentOf p \<notin> {k. under p k}" using not_under_self_parent(1)[OF canp p(2)] by simp
    show "''/'' \<notin> {k. under p k}" using not_under_self_parent(2)[OF canp p(2)] by simp
  next
    fix k assume k: "map_of (fs st) k \<noteq> None" "k \<notin> {k. under p k}" "k \<noteq> ''/''"
    then obtain ek where "map_of (fs st) k = Some ek" by auto
    then have "canonical_key k" by (rule shape_ok_canonical[OF s])
    from under_child[OF this k(3) _ canp p(2)] k(2)
    show "parentOf k \<notin> {k. under p k}" by (auto simp: under_def)
  next
    fix k assume k: "map_of (fs st) k \<noteq> None" "k \<in> {k. under p k}" "k \<noteq> p"
    then obtain ek where "map_of (fs st) k = Some ek" by auto
    then have "canonical_key k" by (rule shape_ok_canonical[OF s])
    from under_parent[OF this _ canonical_nonempty[OF canp]] k(2,3)
    show "parentOf k \<in> {k. under p k}" by (auto simp: under_def)
  next
    fix k
    from r show "map_of (fs st') k =
        (if k \<in> {k. under p k} then None
         else if k = parentOf p then Some (Dir (remove1 (nameOf p) cs))
         else map_of (fs st) k)"
      by (simp add: removal_def ca)
  qed
  moreover from r have "distinct (map fst (fs st'))" by (simp add: removal_def)
  ultimately show ?thesis by (simp add: tree_ok_shape)
qed

subsection \<open>What removal does to a well-formed tree\<close>

lemma unlink_after_delete:
  assumes "map_of (fs s1) P = Some (Dir csP)" and "P \<noteq> p"
  shows "unlink (s1\<lparr>fs := AList.delete p (fs s1)\<rparr>) P n =
     (Success (), s1\<lparr>fs := AList.update P (Dir (remove1 n csP)) (AList.delete p (fs s1))\<rparr>)"
  using assms by (simp add: unlink_def delete_conv')

lemma startsWith_longer: "startsWith k (p @ x # t) \<Longrightarrow> length p < length k"
  by (auto simp: startsWith_iff)

lemma startsWith_trans:
  "startsWith k (q @ ''/'') \<Longrightarrow> startsWith q (p @ ''/'') \<Longrightarrow> startsWith k (p @ ''/'')"
  by (auto simp: startsWith_iff)

lemma rm_spec:
  "tree_ok st \<Longrightarrow> exists st (resolvePath st path0) \<Longrightarrow> resolvePath st path0 \<noteq> ''/'' \<Longrightarrow>
     (isDir st (resolvePath st path0) \<longrightarrow> recursive) \<Longrightarrow>
     \<exists>st'. rm st path0 recursive = (Success (), st') \<and> removal st (resolvePath st path0) st'"
  "tree_ok st \<Longrightarrow> map_of (fs st) path = Some (Dir cs) \<Longrightarrow> path \<noteq> ''/'' \<Longrightarrow>
     \<exists>st'. rm_children st path cs = (Success (), st') \<and> emptied st path st'"
proof (induction st path0 recursive and st path cs rule: rm_rm_children.induct)
  case (1 st path0 recursive)
  let ?p = "resolvePath st path0"
  let ?P = "parentOf ?p"
  let ?n = "nameOf ?p"
  from "1.prems"(1) have d: "distinct (map fst (fs st))" and s: "shape_ok (map_of (fs st))"
    by (simp_all add: tree_ok_shape)
  from "1.prems"(2) obtain e where e: "map_of (fs st) ?p = Some e" by (auto simp: exists_def)
  have canp: "canonical_key ?p" using shape_ok_canonical[OF s e] .
  from shape_ok_parent[OF s e "1.prems"(3)]
  obtain csP where csP: "map_of (fs st) ?P = Some (Dir csP)" by auto
  have caP: "children_at st ?P = csP" using csP by (simp add: children_at_def)
  have nu: "\<not> under ?p ?P" using not_under_self_parent(1)[OF canp "1.prems"(3)] .
  then have Pne: "?P \<noteq> ?p" and Pns: "\<not> startsWith ?P (?p @ ''/'')" by (auto simp: under_def)
  have pns: "\<not> startsWith ?p (?p @ ''/'')" by (auto simp: startsWith_iff)
  show ?case
  proof (cases "isDir st ?p")
    case True
    with "1.prems"(4) have rec: recursive by simp
    from True obtain cs where cs: "map_of (fs st) ?p = Some (Dir cs)" by (auto simp: isDir_iff)
    then have ca: "children_at st ?p = cs" by (simp add: children_at_def)
    have "\<exists>st'. rm_children st ?p (children_at st ?p) = (Success (), st') \<and> emptied st ?p st'"
      using "1.IH"[OF refl _ _ refl refl _ "1.prems"(1)] "1.prems"(2,3) True rec cs ca by simp
    then obtain st1 where st1: "rm_children st ?p (children_at st ?p) = (Success (), st1)"
      and em: "emptied st ?p st1" by auto
    from em have look1: "\<And>k. map_of (fs st1) k =
         (if startsWith k (?p @ ''/'') then None
          else if k = ?p then Some (Dir []) else map_of (fs st) k)"
      and d1: "distinct (map fst (fs st1))" and c1: "currentDir st1 = currentDir st"
      by (simp_all add: emptied_def)
    have par1: "map_of (fs st1) ?P = Some (Dir csP)"
      using look1[of ?P] Pne Pns csP by simp
    let ?st' = "st1\<lparr>fs := AList.update ?P (Dir (remove1 ?n csP)) (AList.delete ?p (fs st1))\<rparr>"
    have res: "rm st path0 recursive = (Success (), ?st')"
      using "1.prems"(2) True rec st1 unlink_after_delete[OF par1 Pne, of ?n]
      by (simp add: rm.simps Let_def)
    have "removal st ?p ?st'"
      unfolding removal_def
    proof (intro conjI allI)
      show "currentDir ?st' = currentDir st" using c1 by simp
      show "distinct (map fst (fs ?st'))" using d1 by (simp add: distinct_update distinct_delete)
      fix k
      show "map_of (fs ?st') k =
          (if under ?p k then None
           else if k = ?P then Some (Dir (remove1 ?n (children_at st ?P)))
           else map_of (fs st) k)"
        using look1[of k] nu pns caP
        by (auto simp: update_conv' delete_conv' under_def)
    qed
    with res show ?thesis by blast
  next
    case False
    with e obtain c t where f: "map_of (fs st) ?p = Some (File c t)"
      by (cases e) (auto simp: isDir_iff)
    let ?st' = "st\<lparr>fs := AList.update ?P (Dir (remove1 ?n csP)) (AList.delete ?p (fs st))\<rparr>"
    have res: "rm st path0 recursive = (Success (), ?st')"
      using "1.prems"(2) False unlink_after_delete[OF csP Pne, of ?n]
      by (simp add: rm.simps Let_def)
    have none: "map_of (fs st) k = None" if "startsWith k (?p @ ''/'')" for k
      using no_descendants[OF s f _ that] by simp
    have "removal st ?p ?st'"
      unfolding removal_def
    proof (intro conjI allI)
      show "currentDir ?st' = currentDir st" by simp
      show "distinct (map fst (fs ?st'))" using d by (simp add: distinct_update distinct_delete)
      fix k
      show "map_of (fs ?st') k =
          (if under ?p k then None
           else if k = ?P then Some (Dir (remove1 ?n (children_at st ?P)))
           else map_of (fs st) k)"
        using none[of k] nu caP
        by (auto simp: update_conv' delete_conv' under_def)
    qed
    with res show ?thesis by blast
  qed
next
  case (2 st path)
  from "2.prems"(1) have d: "distinct (map fst (fs st))" and s: "shape_ok (map_of (fs st))"
    by (simp_all add: tree_ok_shape)
  have none: "map_of (fs st) k = None" if "startsWith k (path @ ''/'')" for k
    using no_descendants[OF s "2.prems"(2) _ that] by simp
  have "emptied st path st"
    unfolding emptied_def using d none "2.prems"(2) by auto
  then show ?case by simp
next
  case (3 st path child rest)
  let ?q = "path @ ''/'' @ child"
  from "3.prems"(1) have d: "distinct (map fst (fs st))" and s: "shape_ok (map_of (fs st))"
    by (simp_all add: tree_ok_shape)
  have canpath: "canonical_key path" using shape_ok_canonical[OF s "3.prems"(2)] .
  have pne: "path \<noteq> []" using canpath by (rule canonical_nonempty)
  have cq: "child_path path child = ?q" using "3.prems"(3) by (simp add: child_path_def)
  from shape_ok_child[OF s "3.prems"(2), of child] cq
  have sl: "CHR ''/'' \<notin> set child" and exq: "map_of (fs st) ?q \<noteq> None" by auto
  have pn: "parentOf ?q = path" "nameOf ?q = child"
    using parent_name_child_path[OF pne sl] cq by auto
  have rq: "resolvePath st ?q = ?q"
    using canpath by (intro resolvePath_slash) (auto simp: canonical_key_def startsWith_slash)
  have qr: "?q \<noteq> ''/''" using pne by (cases path) auto
  have "\<exists>st'. rm st ?q True = (Success (), st') \<and> removal st (resolvePath st ?q) st'"
    using "3.IH"(1)[OF "3.prems"(1)] exq qr rq by (simp add: exists_def)
  then obtain st1 where st1: "rm st ?q True = (Success (), st1)" and rem: "removal st ?q st1"
    using rq by auto
  have ok1: "tree_ok st1"
    using tree_ok_removal[OF "3.prems"(1) _ qr rem] exq by (simp add: exists_def)
  from rem have look1: "\<And>k. map_of (fs st1) k =
         (if under ?q k then None
          else if k = parentOf ?q
               then Some (Dir (remove1 (nameOf ?q) (children_at st (parentOf ?q))))
               else map_of (fs st) k)"
    and c1: "currentDir st1 = currentDir st"
    by (simp_all add: removal_def)
  have nup: "\<not> under ?q path" by (auto simp: under_def startsWith_iff)
  have ca: "children_at st path = child # rest" using "3.prems"(2) by (simp add: children_at_def)
  have p1: "map_of (fs st1) path = Some (Dir rest)"
    using look1[of path] nup pn ca by simp
  have "\<exists>st'. rm_children st1 path rest = (Success (), st') \<and> emptied st1 path st'"
    using "3.IH"(2)[OF _ _ ok1 p1 "3.prems"(3), of "Success ()" "()"] st1 by simp
  then obtain st' where st': "rm_children st1 path rest = (Success (), st')"
    and em: "emptied st1 path st'" by auto
  have res: "rm_children st path (child # rest) = (Success (), st')"
    using st1 st' by simp
  have sub: "startsWith k (path @ ''/'')" if "under ?q k" for k
    using that by (auto simp: under_def startsWith_iff)
  have "emptied st path st'"
    unfolding emptied_def
  proof (intro conjI allI)
    from em c1 show "currentDir st' = currentDir st" by (simp add: emptied_def)
    from em show "distinct (map fst (fs st'))" by (simp add: emptied_def)
    fix k
    from em have "map_of (fs st') k =
        (if startsWith k (path @ ''/'') then None
         else if k = path then Some (Dir []) else map_of (fs st1) k)"
      by (simp add: emptied_def)
    then show "map_of (fs st') k =
        (if startsWith k (path @ ''/'') then None
         else if k = path then Some (Dir []) else map_of (fs st) k)"
      using look1[of k] sub[of k] pn by auto
  qed
  with res show ?case by blast
qed

subsection \<open>The operations one by one\<close>

lemma tree_ok_create:
  assumes ok: "tree_ok st" and new: "\<not> exists st q" and can: "canonical_key q"
    and par: "map_of (fs st) (parentOf q) = Some (Dir cs)"
    and e: "e = Dir [] \<or> (\<exists>c t. e = File c t)"
  shows "tree_ok (st\<lparr>fs := AList.update (parentOf q) (Dir (cs @ [nameOf q]))
                          (AList.update q e (fs st))\<rparr>)"
proof -
  from ok have d: "distinct (map fst (fs st))" and s: "shape_ok (map_of (fs st))"
    by (simp_all add: tree_ok_shape)
  from new have n: "map_of (fs st) q = None" by (simp add: exists_def)
  from shape_ok_create[OF s n can par e] d show ?thesis
    by (simp add: tree_ok_shape update_conv' distinct_update)
qed

lemma mkdir_tree_ok:
  assumes ok: "tree_ok st" and can: "canonical_key (resolvePath st p)"
    and res: "mkdir st p = (Success (), st')"
  shows "tree_ok st'"
proof -
  let ?q = "resolvePath st p"
  from res have new: "\<not> exists st ?q" and dir: "isDir st (parentOf ?q)"
    by (auto simp: mkdir_def Let_def split: if_splits)
  from dir obtain cs where cs: "map_of (fs st) (parentOf ?q) = Some (Dir cs)"
    by (auto simp: isDir_iff)
  with new have ne: "parentOf ?q \<noteq> ?q" by (auto simp: exists_def)
  have "map_of (fs (st\<lparr>fs := AList.update ?q (Dir []) (fs st)\<rparr>)) (parentOf ?q) = Some (Dir cs)"
    using cs ne by (simp add: update_conv')
  from push_child_dir[OF this, of "nameOf ?q"] res new dir
  have "st' = st\<lparr>fs := AList.update (parentOf ?q) (Dir (cs @ [nameOf ?q]))
                          (AList.update ?q (Dir []) (fs st))\<rparr>"
    by (simp add: mkdir_def Let_def)
  with tree_ok_create[OF ok new can cs, of "Dir []"] show ?thesis by simp
qed

lemma touch_tree_ok:
  assumes ok: "tree_ok st" and can: "canonical_key (resolvePath st p)"
    and res: "touch now st p = (Success (), st')"
  shows "tree_ok st'"
proof (cases "exists st (resolvePath st p)")
  case True
  with res ok show ?thesis by (simp add: touch_existing)
next
  case False
  let ?q = "resolvePath st p"
  from touch_cases[OF False, of now] res
  obtain cs where cs: "map_of (fs st) (parentOf ?q) = Some (Dir cs)"
    and st': "st' = st\<lparr>fs := AList.update (parentOf ?q) (Dir (cs @ [nameOf ?q]))
                          (AList.update ?q (File [] now) (fs st))\<rparr>"
    by auto
  from tree_ok_create[OF ok False can cs, of "File [] now"] st' show ?thesis by simp
qed

lemma set_content_tree_ok:
  assumes ok: "tree_ok st" and f: "isFile st q"
  shows "tree_ok (set_content st q x a)"
proof -
  from ok have d: "distinct (map fst (fs st))" and s: "shape_ok (map_of (fs st))"
    by (simp_all add: tree_ok_shape)
  from f obtain c t where c: "map_of (fs st) q = Some (File c t)" by (auto simp: isFile_iff)
  from shape_ok_content[OF s c] d c show ?thesis
    by (simp add: set_content_def tree_ok_shape update_conv' distinct_update)
qed

lemma canonical_resolved: "canonical_key q \<Longrightarrow> resolvePath st q = q"
  by (simp add: canonical_key_def resolvePath_slash)

lemma writeFile_tree_ok:
  assumes ok: "tree_ok st" and can: "canonical_key (resolvePath st p)"
    and res: "writeFile now st p x a = (Success (), st')"
  shows "tree_ok st'"
proof (cases "exists st (resolvePath st p)")
  case True
  with res have "isFile st (resolvePath st p)" "st' = set_content st (resolvePath st p) x a"
    by (auto simp: writeFile_def Let_def split: if_splits)
  with set_content_tree_ok[OF ok] show ?thesis by simp
next
  case False
  let ?q = "resolvePath st p"
  have rq: "resolvePath st ?q = ?q" using can by (rule canonical_resolved)
  obtain r s1 where t: "touch now st ?q = (r, s1)" by (cases "touch now st ?q")
  from res False t have r: "r = Success ()" and f: "isFile s1 ?q"
    and st': "st' = set_content s1 ?q x a"
    by (auto simp: writeFile_def Let_def split: outcome.splits if_splits)
  have "tree_ok s1" using touch_tree_ok[OF ok, of ?q now s1] can rq t r by simp
  from set_content_tree_ok[OF this f] st' show ?thesis by simp
qed

lemma cp_tree_ok:
  assumes ok: "tree_ok st" and can: "canonical_key (resolvePath st b)"
    and res: "cp now st a b = (Success (), st')"
  shows "tree_ok st'"
proof -
  let ?d = "resolvePath st b"
  have rd: "resolvePath st ?d = ?d" using can by (rule canonical_resolved)
  from res obtain c where "writeFile now st ?d c False = (Success (), st')"
    by (auto simp: cp_def Let_def split: if_splits outcome.splits)
  from writeFile_tree_ok[OF ok _ this] can rd show ?thesis by simp
qed

lemma rm_tree_ok:
  assumes ok: "tree_ok st" and res: "rm st p r = (Success (), st')"
  shows "tree_ok st'"
proof -
  let ?q = "resolvePath st p"
  from res have ex: "exists st ?q" and rec: "isDir st ?q \<longrightarrow> r"
    by (auto simp: rm.simps Let_def split: if_splits)
  have root: "isDir st ''/''" using ok by (simp add: tree_ok_def inv_root_def)
  have nr: "?q \<noteq> ''/''"
  proof
    assume q: "?q = ''/''"
    with rec root have r by simp
    with rm_resolving_to_root[OF q root] res show False by simp
  qed
  from rm_spec(1)[OF ok ex nr rec] res have "removal st ?q st'" by auto
  from tree_ok_removal[OF ok ex nr this] show ?thesis .
qed

lemma mv_tree_ok:
  assumes ok: "tree_ok st" and can: "canonical_key (resolvePath st b)"
    and res: "mv now st a b = (Success (), st')"
  shows "tree_ok st'"
proof -
  obtain r s1 where c: "cp now st a b = (r, s1)" by (cases "cp now st a b")
  with res have r: "r = Success ()" and rm: "rm s1 a False = (Success (), st')"
    by (auto simp: mv_def split: outcome.splits)
  from cp_tree_ok[OF ok can] c r have "tree_ok s1" by simp
  from rm_tree_ok[OF this rm] show ?thesis .
qed

text \<open>
  \<^bold>\<open>C2\<close>, as the code has it.  Let the tree satisfy invariants 1 to 4, let every key be
  canonical and every child name be the name of an entry that exists.  Then after every
  successful \<open>mkdir\<close>, \<open>touch\<close>, \<open>writeFile\<close>, \<open>rm\<close> (recursive or not), \<open>cp\<close> and \<open>mv\<close>
  the tree satisfies all of these again, provided the resolved path at which the call may
  create an entry does not begin with two slashes.  The empty path expression is covered:
  it resolves to the working directory and a slash.
\<close>

theorem invariants_preserved:
  assumes "tree_ok st" and "list_all canonical_key (created_paths st op)"
    and "perform now st op = (Success (), st')"
  shows "tree_ok st' \<and> inv_root st' \<and> inv_parent st' \<and> inv_unique st' \<and> inv_kind st'"
proof -
  have "tree_ok st'"
  proof (cases op)
    case (MakeDirectory p)
    with assms mkdir_tree_ok[of st p st'] show ?thesis by simp
  next
    case (Touch p)
    with assms touch_tree_ok[of st p now st'] show ?thesis by simp
  next
    case (WriteFile p x a)
    with assms writeFile_tree_ok[of st p now x a st'] show ?thesis by simp
  next
    case (Remove p r)
    with assms rm_tree_ok[of st p r st'] show ?thesis by simp
  next
    case (Copy a b)
    with assms cp_tree_ok[of st b now a st'] show ?thesis by simp
  next
    case (Move a b)
    with assms mv_tree_ok[of st b now a st'] show ?thesis by simp
  qed
  then show ?thesis by (simp add: tree_ok_def)
qed

theorem invariants_preserved_witness:
  "tree_ok \<lparr>currentDir = ''/home/user'', fs = default_layout\<rparr> \<and>
   list_all canonical_key (created_paths \<lparr>currentDir = ''/home/user'', fs = default_layout\<rparr> (MakeDirectory [])) \<and>
   fst (perform 0 \<lparr>currentDir = ''/home/user'', fs = default_layout\<rparr> (MakeDirectory [])) = Success () \<and>
   tree_ok (snd (perform 0 \<lparr>currentDir = ''/home/user'', fs = default_layout\<rparr> (MakeDirectory []))) \<and>
   fst (perform 0 \<lparr>currentDir = ''/home/user'', fs = default_layout\<rparr> (Remove ''/home'' True)) = Success () \<and>
   inv_parent (snd (perform 0 \<lparr>currentDir = ''/home/user'', fs = default_layout\<rparr> (Remove ''/home'' True)))"
proof -
  let ?st = "\<lparr>currentDir = ''/home/user'', fs = default_layout\<rparr>"
  have h1: "tree_ok ?st" by code_simp
  have h2: "list_all canonical_key (created_paths ?st (MakeDirectory []))" by code_simp
  have h2': "list_all canonical_key (created_paths ?st (Remove ''/home'' True))" by simp
  have f3: "fst (perform 0 ?st (MakeDirectory [])) = Success ()" by code_simp
  have f4: "fst (perform 0 ?st (Remove ''/home'' True)) = Success ()" by code_simp
  have h3: "perform 0 ?st (MakeDirectory []) = (Success (), snd (perform 0 ?st (MakeDirectory [])))"
    using f3 by (metis prod.collapse)
  have h4: "perform 0 ?st (Remove ''/home'' True) = (Success (), snd (perform 0 ?st (Remove ''/home'' True)))"
    using f4 by (metis prod.collapse)
  from invariants_preserved[OF h1 h2 h3] invariants_preserved[OF h1 h2' h4] h1 h2 f3 f4
  show ?thesis by blast
qed

text \<open>The claim as it was stated, for every path expression, fails at \<open>//home\<close>: the
  parent of \<open>//home\<close> is computed as \<open>/\<close> and its name as \<open>home\<close>, the key \<open>//home\<close> does
  not exist, and the root lists \<open>home\<close> twice afterwards.\<close>

theorem double_slash_breaks_uniqueness:
  "tree_ok \<lparr>currentDir = ''/home/user'', fs = default_layout\<rparr> \<and>
   mkdir \<lparr>currentDir = ''/home/user'', fs = default_layout\<rparr> ''//home'' =
     (Success (),
      \<lparr>currentDir = ''/home/user'',
       fs = [(''/'', Dir [''home'', ''etc'', ''var'', ''tmp'', ''home'']),
             (''/home'', Dir [''user'']),
             (''/home/user'', Dir [''Desktop'', ''Documents'', ''Downloads'']),
             (''/home/user/Desktop'', Dir []),
             (''/home/user/Documents'', Dir []),
             (''/home/user/Downloads'', Dir []),
             (''/etc'', Dir []),
             (''/var'', Dir []),
             (''/tmp'', Dir []),
             (''//home'', Dir [])]\<rparr>) \<and>
   \<not> inv_unique (snd (mkdir \<lparr>currentDir = ''/home/user'', fs = default_layout\<rparr> ''//home''))"
  by code_simp

section \<open>Persistence round trip\<close>

subsection \<open>Reading back what was written\<close>

lemma hex_value_hex_digit: "m < 16 \<Longrightarrow> hex_value (hex_digit m) = Some m"
  by (auto simp: hex_value_def hex_digit_def Let_def)

lemma hex4_control:
  assumes "(of_char c :: nat) < 32"
  shows "hex4 CHR ''0'' CHR ''0'' (hex_digit (of_char c div 16)) (hex_digit (of_char c mod 16)) = Some c"
proof -
  have z: "hex_value CHR ''0'' = Some 0" by (simp add: hex_value_def)
  have a: "hex_value (hex_digit (of_char c div 16)) = Some (of_char c div 16)"
    using assms by (intro hex_value_hex_digit) simp
  have b: "hex_value (hex_digit (of_char c mod 16)) = Some (of_char c mod 16)"
    by (intro hex_value_hex_digit) simp
  have "char_of (16 * ((of_char c :: nat) div 16) + of_char c mod 16) = c"
    by simp
  then show ?thesis by (simp add: hex4_def z a b)
qed

lemma scan_escaped_char: "scan_string acc (json_escape c @ rest) = scan_string (c # acc) rest"
proof -
  consider "c = CHR 0x22" | "c = CHR 0x5C" | "c = CHR 0x08" | "c = CHR 0x0C" | "c = CHR 0x0A"
    | "c = CHR 0x0D" | "c = CHR 0x09"
    | "c \<notin> {CHR 0x22, CHR 0x5C, CHR 0x08, CHR 0x0C, CHR 0x0A, CHR 0x0D, CHR 0x09}" "(of_char c :: nat) < 32"
    | "c \<notin> {CHR 0x22, CHR 0x5C, CHR 0x08, CHR 0x0C, CHR 0x0A, CHR 0x0D, CHR 0x09}" "\<not> (of_char c :: nat) < 32"
    by blast
  then show ?thesis
  proof cases
    case 8
    then show ?thesis using hex4_control[of c] by (simp add: json_escape_def)
  next
    case 9
    then show ?thesis by (simp add: json_escape_def)
  qed (simp_all add: json_escape_def)
qed

lemma scan_string_escaped:
  "scan_string acc (concat (map json_escape s) @ CHR 0x22 # rest) =
     map_option (Cons (Str (rev acc @ s))) (tokens rest)"
proof (induction s arbitrary: acc)
  case Nil
  then show ?case by simp
next
  case (Cons c s)
  have "scan_string acc (concat (map json_escape (c # s)) @ CHR 0x22 # rest) =
        scan_string acc (json_escape c @ (concat (map json_escape s) @ CHR 0x22 # rest))"
    by simp
  also have "\<dots> = scan_string (c # acc) (concat (map json_escape s) @ CHR 0x22 # rest)"
    by (rule scan_escaped_char)
  also have "\<dots> = map_option (Cons (Str (rev (c # acc) @ s))) (tokens rest)"
    by (rule Cons.IH)
  finally show ?case by simp
qed

lemma tokens_quote: "tokens (json_quote s @ rest) = map_option (Cons (Str s)) (tokens rest)"
  using scan_string_escaped[of "[]" s rest] by (simp add: json_quote_def)


lemma is_digit_char: "(d::nat) < 10 \<Longrightarrow> is_digit (char_of (48 + d))"
  by (simp add: is_digit_def)

lemma show_nat_digits: "list_all is_digit (show_nat n)"
proof (induction n rule: show_nat.induct)
  case (1 n)
  show ?case
  proof (cases "n < 10")
    case True
    then show ?thesis by (subst show_nat.simps) (simp add: is_digit_char)
  next
    case False
    with 1 show ?thesis by (subst show_nat.simps) (simp add: is_digit_char)
  qed
qed

lemma show_nat_nonempty: "show_nat n \<noteq> []"
  by (subst show_nat.simps) simp

lemma show_nat_value: "foldl (\<lambda>a d. 10 * a + (of_char d - 48)) (0::nat) (show_nat n) = n"
proof (induction n rule: show_nat.induct)
  case (1 n)
  show ?case
  proof (cases "n < 10")
    case True
    then show ?thesis by (subst show_nat.simps) simp
  next
    case False
    have m: "(48 + n mod 10) mod 256 = 48 + n mod 10"
    proof (rule mod_less)
      have "n mod 10 < 10" by simp
      then show "48 + n mod 10 < 256" by linarith
    qed
    from False 1 show ?thesis by (subst show_nat.simps) (simp add: m)
  qed
qed

lemma show_nat_leading: "10 \<le> n \<Longrightarrow> hd (show_nat n) \<noteq> CHR ''0''"
proof (induction n rule: show_nat.induct)
  case (1 n)
  from "1.prems" have nz: "0 < n div 10" by simp
  have st: "show_nat n = show_nat (n div 10) @ [char_of (48 + n mod 10)]"
    using "1.prems" by (subst show_nat.simps) simp
  show ?case
  proof (cases "n div 10 < 10")
    case True
    then have "show_nat (n div 10) = [char_of (48 + n div 10)]"
      by (subst show_nat.simps) simp
    moreover have "char_of (48 + n div 10) \<noteq> CHR ''0''"
    proof
      assume "char_of (48 + n div 10) = CHR ''0''"
      then have "(of_char (char_of (48 + n div 10)) :: nat) = of_char CHR ''0''" by simp
      with True nz show False by simp
    qed
    ultimately show ?thesis by (simp add: st)
  next
    case False
    with "1.IH" "1.prems" have "hd (show_nat (n div 10)) \<noteq> CHR ''0''" by simp
    then show ?thesis using show_nat_nonempty[of "n div 10"] by (simp add: st)
  qed
qed

lemma show_nat_length: "length (show_nat n) > 1 \<Longrightarrow> 10 \<le> n"
  by (subst (asm) show_nat.simps) (simp split: if_splits)

lemma read_number_show_nat:
  "read_number negative (show_nat n) = Some (if negative then - int n else int n)"
  using show_nat_nonempty[of n] show_nat_leading[of n] show_nat_length[of n]
  by (auto simp: read_number_def show_nat_value Let_def)

lemma scan_number_digits:
  "list_all is_digit ds' \<Longrightarrow> scan_number negative ds (ds' @ rest) = scan_number negative (ds @ ds') rest"
  by (induction ds' arbitrary: ds) simp_all

lemma tokens_number:
  "tokens (show_int t @ CHR ''}'' # rest) = map_option (\<lambda>ts. Num t # RBrace # ts) (tokens rest)"
proof (cases "t < 0")
  case True
  have "tokens (show_int t @ CHR ''}'' # rest) =
        scan_number True [] (show_nat (nat (- t)) @ CHR ''}'' # rest)"
    using True by (simp add: show_int_def)
  also have "\<dots> = scan_number True (show_nat (nat (- t))) (CHR ''}'' # rest)"
    using scan_number_digits[OF show_nat_digits, of True "[]"] by simp
  also have "\<dots> = map_option (Cons (Num t)) (tokens (CHR ''}'' # rest))"
    using True by (simp add: read_number_show_nat is_digit_def)
  finally show ?thesis by (simp add: option.map_comp comp_def)
next
  case False
  obtain d ds where dd: "show_nat (nat t) = d # ds"
    using show_nat_nonempty[of "nat t"] by (cases "show_nat (nat t)") auto
  from show_nat_digits[of "nat t"] dd have dig: "is_digit d" "list_all is_digit ds" by auto
  from dig(1) have nd: "d \<notin> {CHR ''{'', CHR ''}'', CHR ''['', CHR '']'', CHR '':'', CHR '','', CHR 0x22, CHR ''-''}"
    by (auto simp: is_digit_def)
  have "tokens (show_int t @ CHR ''}'' # rest) = scan_number False [d] (ds @ CHR ''}'' # rest)"
    using False dd dig(1) nd by (simp add: show_int_def)
  also have "\<dots> = scan_number False (show_nat (nat t)) (CHR ''}'' # rest)"
    using scan_number_digits[OF dig(2), of False "[d]"] dd by simp
  also have "\<dots> = map_option (Cons (Num t)) (tokens (CHR ''}'' # rest))"
    using False by (simp add: read_number_show_nat is_digit_def)
  finally show ?thesis by (simp add: option.map_comp comp_def)
qed


lemma tokens_strs:
  "tokens (js_join '','' (map json_quote cs) @ CHR '']'' # rest) =
     map_option (\<lambda>ts. strs_tokens cs @ RBracket # ts) (tokens rest)"
proof (induction cs rule: strs_tokens.induct)
  case 1
  then show ?case by simp
next
  case (2 x)
  then show ?case by (simp add: tokens_quote option.map_comp comp_def)
next
  case (3 x y ys)
  have "tokens (js_join '','' (map json_quote (x # y # ys)) @ CHR '']'' # rest) =
        tokens (json_quote x @ CHR '','' # (js_join '','' (map json_quote (y # ys)) @ CHR '']'' # rest))"
    by simp
  also have "\<dots> = map_option (\<lambda>ts. Str x # Comma # ts)
        (tokens (js_join '','' (map json_quote (y # ys)) @ CHR '']'' # rest))"
    by (simp add: tokens_quote option.map_comp comp_def)
  finally show ?case using 3 by (simp add: option.map_comp comp_def)
qed

lemma tokens_entry:
  "tokens (stringify_entry e @ rest) = map_option (\<lambda>ts. entry_tokens e @ ts) (tokens rest)"
proof (cases e)
  case (Dir cs)
  have "tokens (stringify_entry e @ rest) =
        map_option (\<lambda>ts. [LBrace, Str ''type'', Colon, Str ''dir'', Comma, Str ''children'', Colon, LBracket] @ ts)
          (tokens (js_join '','' (map json_quote cs) @ CHR '']'' # CHR ''}'' # rest))"
    by (simp add: Dir stringify_entry_def tokens_quote option.map_comp comp_def)
  then show ?thesis
    by (simp add: Dir entry_tokens_def tokens_strs option.map_comp comp_def)
next
  case (File c t)
  have "tokens (stringify_entry e @ rest) =
        map_option (\<lambda>ts. [LBrace, Str ''type'', Colon, Str ''file'', Comma, Str ''content'', Colon, Str c,
                           Comma, Str ''created'', Colon] @ ts)
          (tokens (show_int t @ CHR ''}'' # rest))"
    by (simp add: File stringify_entry_def tokens_quote option.map_comp comp_def)
  then show ?thesis
    by (simp add: File entry_tokens_def tokens_number option.map_comp comp_def)
qed

lemma tokens_members:
  "tokens (js_join '','' (map (\<lambda>(k, e). json_quote k @ '':'' @ stringify_entry e) t) @ CHR ''}'' # rest) =
     map_option (\<lambda>ts. members_tokens t @ RBrace # ts) (tokens rest)"
proof (induction t rule: members_tokens.induct)
  case 1
  then show ?case by simp
next
  case (2 k e)
  then show ?case by (simp add: tokens_quote tokens_entry option.map_comp comp_def)
next
  case (3 k e m ms)
  let ?f = "\<lambda>(k, e). json_quote k @ '':'' @ stringify_entry e"
  have "tokens (js_join '','' (map ?f ((k, e) # m # ms)) @ CHR ''}'' # rest) =
        tokens (json_quote k @ CHR '':'' # (stringify_entry e @ CHR '','' #
                  (js_join '','' (map ?f (m # ms)) @ CHR ''}'' # rest)))"
    by simp
  also have "\<dots> = map_option (\<lambda>ts. Str k # Colon # entry_tokens e @ Comma # ts)
        (tokens (js_join '','' (map ?f (m # ms)) @ CHR ''}'' # rest))"
    by (simp add: tokens_quote tokens_entry option.map_comp comp_def)
  finally show ?case using 3 by (simp add: option.map_comp comp_def)
qed

lemma tokens_stringify: "tokens (JSON_stringify t) = Some (LBrace # members_tokens t @ [RBrace])"
  using tokens_members[of t "[]"] by (simp add: JSON_stringify_def)

lemma elems_strs: "elems (strs_tokens (c # cs) @ RBracket # r) = Some (c # cs, r)"
  by (induction cs arbitrary: c) simp_all

lemma children_array_strs: "children_array (LBracket # strs_tokens cs @ RBracket # r) = Some (cs, r)"
proof (cases cs)
  case Nil
  then show ?thesis by simp
next
  case (Cons c cs')
  obtain t ts where "strs_tokens (c # cs') @ RBracket # r = t # ts" "t \<noteq> RBracket"
    by (cases cs') auto
  then show ?thesis using elems_strs[of c cs' r] Cons by (cases t) auto
qed

lemma parse_entry_tokens: "parse_entry (entry_tokens e @ r) = Some (e, r)"
proof (cases e)
  case (Dir cs)
  then show ?thesis
    using children_array_strs[of cs "RBrace # r"]
    by (simp add: parse_entry_def entry_tokens_def)
next
  case (File c t)
  then show ?thesis by (simp add: parse_entry_def entry_tokens_def)
qed

lemma members_tokens_parse: "t \<noteq> [] \<Longrightarrow> members (members_tokens t @ [RBrace]) = Some t"
proof (induction t rule: members_tokens.induct)
  case 1
  then show ?case by simp
next
  case (2 k e)
  show ?case
    using parse_entry_tokens[of e "[RBrace]"] by (subst members.simps) simp
next
  case (3 k e m ms)
  have "members (members_tokens ((k, e) # m # ms) @ [RBrace]) =
        map_option (Cons (k, e)) (members (members_tokens (m # ms) @ [RBrace]))"
    using parse_entry_tokens[of e "Comma # members_tokens (m # ms) @ [RBrace]"]
    by (subst members.simps) simp
  with 3 show ?case by simp
qed

lemma parse_object_tokens: "parse_object (LBrace # members_tokens t @ [RBrace]) = Some t"
proof (cases t)
  case Nil
  then show ?thesis by (simp add: parse_object_def)
next
  case (Cons m ms)
  obtain x xs where x: "members_tokens t @ [RBrace] = x # xs" "x \<noteq> RBrace"
    using Cons by (cases m; cases ms) auto
  have "xs \<noteq> []"
    using x Cons by (cases m; cases ms) (auto simp: entry_tokens_def split: entry.splits)
  then obtain y ys where "xs = y # ys" by (cases xs) auto
  with x members_tokens_parse[of t] Cons show ?thesis
    by (cases x) (auto simp: parse_object_def)
qed

lemma update_fresh: "k \<notin> fst ` set al \<Longrightarrow> AList.update k v al = al @ [(k, v)]"
  by (induction al) auto

lemma foldl_update_distinct:
  "distinct (map fst (acc @ t)) \<Longrightarrow> foldl (\<lambda>t (k, e). AList.update k e t) acc t = acc @ t"
proof (induction t arbitrary: acc)
  case Nil
  then show ?case by simp
next
  case (Cons m ms)
  obtain k e where m: "m = (k, e)" by (cases m)
  from Cons.prems m have "k \<notin> fst ` set acc" by auto
  then have u: "AList.update k e acc = acc @ [(k, e)]" by (rule update_fresh)
  from Cons.prems m have "distinct (map fst ((acc @ [(k, e)]) @ ms))" by simp
  from Cons.IH[OF this] u m show ?case by simp
qed

lemma JSON_round_trip: "distinct (map fst t) \<Longrightarrow> JSON_parse (JSON_stringify t) = Some t"
  using foldl_update_distinct[of "[]" t]
  by (simp add: JSON_parse_def tokens_stringify parse_object_tokens)

subsection \<open>Keys stay distinct\<close>

lemma push_child_distinct:
  "distinct (map fst (fs st)) \<Longrightarrow> push_child st parent name = Some st' \<Longrightarrow>
     distinct (map fst (fs st'))"
  by (auto simp: push_child_def distinct_update split: option.splits entry.splits)

lemma mkdir_distinct:
  assumes "distinct (map fst (fs st))"
  shows "distinct (map fst (fs (snd (mkdir st p))))"
proof -
  let ?s1 = "st\<lparr>fs := AList.update (resolvePath st p) (Dir []) (fs st)\<rparr>"
  have d1: "distinct (map fst (fs ?s1))" using assms by (simp add: distinct_update)
  show ?thesis
    using assms d1 push_child_distinct[OF d1]
    by (auto simp: mkdir_def Let_def split: option.splits)
qed

lemma touch_distinct:
  assumes "distinct (map fst (fs st))"
  shows "distinct (map fst (fs (snd (touch now st p))))"
proof -
  let ?s1 = "st\<lparr>fs := AList.update (resolvePath st p) (File [] now) (fs st)\<rparr>"
  have d1: "distinct (map fst (fs ?s1))" using assms by (simp add: distinct_update)
  show ?thesis
    using assms d1 push_child_distinct[OF d1]
    by (auto simp: touch_def Let_def split: option.splits)
qed

lemma set_content_distinct:
  "distinct (map fst (fs st)) \<Longrightarrow> distinct (map fst (fs (set_content st q x a)))"
  by (auto simp: set_content_def distinct_update split: option.splits entry.splits)

lemma writeFile_distinct:
  assumes "distinct (map fst (fs st))"
  shows "distinct (map fst (fs (snd (writeFile now st p x a))))"
proof -
  obtain r s1 where t: "touch now st (resolvePath st p) = (r, s1)"
    by (cases "touch now st (resolvePath st p)")
  with touch_distinct[OF assms, of now "resolvePath st p"] have "distinct (map fst (fs s1))"
    by simp
  with assms t show ?thesis
    by (auto simp: writeFile_def Let_def set_content_distinct split: outcome.splits)
qed

lemma cp_distinct:
  "distinct (map fst (fs st)) \<Longrightarrow> distinct (map fst (fs (snd (cp now st a b))))"
  by (auto simp: cp_def Let_def writeFile_distinct split: outcome.splits)

lemma unlink_distinct:
  "distinct (map fst (fs st)) \<Longrightarrow> distinct (map fst (fs (snd (unlink st parent name))))"
  by (auto simp: unlink_def distinct_update split: option.splits entry.splits)

lemma rm_distinct:
  "distinct (map fst (fs st)) \<Longrightarrow> distinct (map fst (fs (snd (rm st path0 recursive))))"
  "distinct (map fst (fs st)) \<Longrightarrow> distinct (map fst (fs (snd (rm_children st path cs))))"
proof (induction st path0 recursive and st path cs rule: rm_rm_children.induct)
  case (1 st path0 recursive)
  let ?p = "resolvePath st path0"
  obtain r s1 where c: "(if isDir st ?p \<and> recursive then rm_children st ?p (children_at st ?p)
                         else (Success (), st)) = (r, s1)"
    by (cases "if isDir st ?p \<and> recursive then rm_children st ?p (children_at st ?p)
               else (Success (), st)")
  show ?case
  proof (cases "\<not> exists st ?p \<or> (isDir st ?p \<and> \<not> recursive)")
    case True
    with "1.prems" show ?thesis by (auto simp: rm.simps Let_def)
  next
    case False
    have d1: "distinct (map fst (fs s1))"
    proof (cases "isDir st ?p \<and> recursive")
      case True
      with "1.IH"[OF refl _ _ refl refl True "1.prems"] False c show ?thesis by simp
    next
      case False
      with c "1.prems" show ?thesis by simp
    qed
    then have "distinct (map fst (fs (s1\<lparr>fs := AList.delete ?p (fs s1)\<rparr>)))"
      by (simp add: distinct_delete)
    from unlink_distinct[OF this] d1 False c "1.prems" show ?thesis
      by (cases r) (simp_all add: rm.simps Let_def)
  qed
next
  case (2 st path)
  then show ?case by simp
next
  case (3 st path child rest)
  obtain r s1 where c: "rm st (path @ ''/'' @ child) True = (r, s1)"
    by (cases "rm st (path @ ''/'' @ child) True")
  with "3.IH"(1)[OF "3.prems"] have d1: "distinct (map fst (fs s1))" by simp
  show ?case
  proof (cases r)
    case (Success u)
    with "3.IH"(2)[OF _ _ d1, of r u] c show ?thesis by simp
  next
    case (Failure e)
    with "3.IH"(3)[OF _ _ d1, of r e] c show ?thesis by simp
  next
    case TypeError
    with c d1 show ?thesis by simp
  qed
qed

lemma mv_distinct:
  assumes "distinct (map fst (fs st))"
  shows "distinct (map fst (fs (snd (mv now st a b))))"
proof -
  obtain r s1 where c: "cp now st a b = (r, s1)" by (cases "cp now st a b")
  with cp_distinct[OF assms, of now a b] have "distinct (map fst (fs s1))" by simp
  with c rm_distinct(1)[of s1 a False] show ?thesis
    by (cases r) (simp_all add: mv_def)
qed

lemma perform_distinct:
  "distinct (map fst (fs st)) \<Longrightarrow> distinct (map fst (fs (snd (perform now st op))))"
  by (cases op)
     (simp_all add: mkdir_distinct touch_distinct writeFile_distinct rm_distinct(1)
        cp_distinct mv_distinct)

lemma run_ops_distinct:
  "distinct (map fst (fs st)) \<Longrightarrow> distinct (map fst (fs (run_ops st ops)))"
proof (induction ops arbitrary: st)
  case Nil
  then show ?case by simp
next
  case (Cons x ops)
  obtain now op where "x = (now, op)" by (cases x)
  with Cons.IH[OF perform_distinct[OF Cons.prems]] show ?case by simp
qed

lemma default_layout_distinct: "distinct (map fst default_layout)"
  by code_simp

text \<open>
  \<^bold>\<open>C8.\<close> Let the tree be the one that a sequence of mutating operations leaves, starting
  from the default layout, and let the storage take its text.  Then loading the saved text
  gives the tree back as it is: the same keys in the same order, the same children in the
  same order, the same contents and time stamps.  A store constructed on that storage
  starts on this tree.
\<close>

theorem persistence_round_trip:
  assumes "st = run_ops \<lparr>currentDir = ''/home/user'', fs = default_layout\<rparr> ops"
    and "accepts (JSON_stringify (fs st))"
  shows "loadFS JSON_parse (saveFS accepts st item) = Some (fs st) \<and>
         fs (constructor JSON_parse (saveFS accepts st item)) = fs st"
proof -
  have "distinct (map fst (fs st))"
    unfolding assms(1) by (rule run_ops_distinct) (simp add: default_layout_distinct)
  then have rt: "JSON_parse (JSON_stringify (fs st)) = Some (fs st)" by (rule JSON_round_trip)
  have ne: "JSON_stringify (fs st) \<noteq> []" by (simp add: JSON_stringify_def)
  have "loadFS JSON_parse (saveFS accepts st item) = Some (fs st)"
    using assms(2) rt ne by (simp add: loadFS_def saveFS_def)
  then show ?thesis by (simp add: constructor_def)
qed

theorem persistence_round_trip_witness:
  \<open>JSON_stringify (fs (run_ops \<lparr>currentDir = ''/home/user'', fs = default_layout\<rparr>
       [(5, Touch ''a.txt''), (6, WriteFile ''a.txt'' ''hi'' False), (7, Remove ''/etc'' True),
        (8, Remove ''Desktop'' True)])) =
     ''{"/":{"type":"dir","children":["home","var","tmp"]},"/home":{"type":"dir","children":["user"]},"/home/user":{"type":"dir","children":["Documents","Downloads","a.txt"]},"/home/user/Documents":{"type":"dir","children":[]},"/home/user/Downloads":{"type":"dir","children":[]},"/var":{"type":"dir","children":[]},"/tmp":{"type":"dir","children":[]},"/home/user/a.txt":{"type":"file","content":"hi","created":5}}'' \<and>
   loadFS JSON_parse (saveFS (\<lambda>d. True)
       (run_ops \<lparr>currentDir = ''/home/user'', fs = default_layout\<rparr>
          [(5, Touch ''a.txt''), (6, WriteFile ''a.txt'' ''hi'' False), (7, Remove ''/etc'' True),
           (8, Remove ''Desktop'' True)]) None) =
     Some (fs (run_ops \<lparr>currentDir = ''/home/user'', fs = default_layout\<rparr>
          [(5, Touch ''a.txt''), (6, WriteFile ''a.txt'' ''hi'' False), (7, Remove ''/etc'' True),
           (8, Remove ''Desktop'' True)]))\<close>
proof -
  let ?ops = "[(5, Touch ''a.txt''), (6, WriteFile ''a.txt'' ''hi'' False),
               (7, Remove ''/etc'' True), (8, Remove ''Desktop'' True)]"
  let ?st = "run_ops \<lparr>currentDir = ''/home/user'', fs = default_layout\<rparr> ?ops"
  have s: \<open>JSON_stringify (fs ?st) =
     ''{"/":{"type":"dir","children":["home","var","tmp"]},"/home":{"type":"dir","children":["user"]},"/home/user":{"type":"dir","children":["Documents","Downloads","a.txt"]},"/home/user/Documents":{"type":"dir","children":[]},"/home/user/Downloads":{"type":"dir","children":[]},"/var":{"type":"dir","children":[]},"/tmp":{"type":"dir","children":[]},"/home/user/a.txt":{"type":"file","content":"hi","created":5}}''\<close>
    by code_simp
  have r: "loadFS JSON_parse (saveFS (\<lambda>d. True) ?st None) = Some (fs ?st)"
    by (rule conjunct1[OF persistence_round_trip[OF refl]]) simp
  from s r show ?thesis ..
qed

end
